theory Spec2Isabelle
  imports Main
begin

section \<open>The free store\<close>

text \<open>
  A \<^verbatim>\<open>Node *\<close> is an address; \<^verbatim>\<open>nullptr\<close> is address 0. The free store maps the
  addresses of live nodes to their contents. \<^verbatim>\<open>std::allocator<Node>\<close> is stateless
  (all instances compare equal), so the member \<^verbatim>\<open>m_alloc\<close> carries no data and every
  list allocates from the one store. \<open>brk\<close> is the next address the allocator hands
  out; an address is never handed out twice, so a pointer to a deallocated node stays
  dangling. The store is unbounded: \<^verbatim>\<open>std::bad_alloc\<close> and a throwing element
  constructor are outside the model.
\<close>

type_synonym addr = nat

abbreviation (input) nullptr :: addr where
  "nullptr \<equiv> 0"

record 'a Node =
  m_data :: 'a
  m_prev :: addr
  m_next :: addr

record 'a memory =
  cells :: "addr \<rightharpoonup> 'a Node"
  brk :: addr

text \<open>
  Undefined behaviour and a failed \<^verbatim>\<open>assert\<close> are results of their own:
  reading or writing through a null pointer, through a pointer to a node that is not
  (or no longer) allocated, and an assertion that does not hold (assertions are modelled
  as enabled; without them the same calls go on to read through the null pointer).
\<close>

datatype error = Null_deref | Dangling_deref | Assertion_failed

definition bindE :: "error + 'b \<Rightarrow> ('b \<Rightarrow> error + 'c) \<Rightarrow> error + 'c" where
  "bindE x f = (case x of Inl e \<Rightarrow> Inl e | Inr v \<Rightarrow> f v)"

definition deref :: "'a memory \<Rightarrow> addr \<Rightarrow> error + 'a Node" where
  "deref m p =
     (case cells m p of
        Some n \<Rightarrow> Inr n
      | None \<Rightarrow> Inl (if p = nullptr then Null_deref else Dangling_deref))"

definition store :: "addr \<Rightarrow> ('a Node \<Rightarrow> 'a Node) \<Rightarrow> 'a memory \<Rightarrow> error + 'a memory" where
  "store p f m = bindE (deref m p) (\<lambda>n. Inr (m\<lparr>cells := (cells m)(p \<mapsto> f n)\<rparr>))"

text \<open>\<^verbatim>\<open>traits::destroy(m_alloc, p); traits::deallocate(m_alloc, p, 1UL);\<close>\<close>

definition destroy_deallocate :: "addr \<Rightarrow> 'a memory \<Rightarrow> error + 'a memory" where
  "destroy_deallocate p m = bindE (deref m p) (\<lambda>n. Inr (m\<lparr>cells := (cells m)(p := None)\<rparr>))"

text \<open>
  \<^verbatim>\<open>__M_create_node(args...)\<close>: allocate one node and construct it from the element;
  the member initialisers \<^verbatim>\<open>m_prev{this}\<close>, \<^verbatim>\<open>m_next{this}\<close> make the new node
  self-linked.
\<close>

definition M_create_node :: "'a \<Rightarrow> 'a memory \<Rightarrow> addr \<times> 'a memory" where
  "M_create_node d m =
     (brk m,
      m\<lparr>cells := (cells m)(brk m \<mapsto> \<lparr>m_data = d, m_prev = brk m, m_next = brk m\<rparr>),
        brk := Suc (brk m)\<rparr>)"

text \<open>The value-initialised element \<^verbatim>\<open>Type{}\<close> of the sentinel; \<^verbatim>\<open>int{}\<close> is 0.\<close>

instantiation int :: default
begin

definition default_int :: int where
  "default_int = 0"

instance ..

end

section \<open>Node: the two linkage primitives\<close>

text \<open>
  \<^verbatim>\<open>
  void push_front(Node *node) {          void push_back(Node *node) {
      node->m_next = this->m_next;           node->m_prev = this->m_prev;
      node->m_prev = this;                   node->m_next = this;
      this->m_next->m_prev = node;           this->m_prev->m_next = node;
      this->m_next = node;                   this->m_prev = node;
  }                                      }
  \<close>
\<close>

definition Node_push_front :: "addr \<Rightarrow> addr \<Rightarrow> 'a memory \<Rightarrow> error + 'a memory" where
  "Node_push_front this node m0 =
     bindE (deref m0 this) (\<lambda>t0.
     bindE (store node (\<lambda>n. n\<lparr>m_next := m_next t0\<rparr>) m0) (\<lambda>m1.
     bindE (store node (\<lambda>n. n\<lparr>m_prev := this\<rparr>) m1) (\<lambda>m2.
     bindE (deref m2 this) (\<lambda>t2.
     bindE (store (m_next t2) (\<lambda>n. n\<lparr>m_prev := node\<rparr>) m2) (\<lambda>m3.
     store this (\<lambda>n. n\<lparr>m_next := node\<rparr>) m3)))))"

definition Node_push_back :: "addr \<Rightarrow> addr \<Rightarrow> 'a memory \<Rightarrow> error + 'a memory" where
  "Node_push_back this node m0 =
     bindE (deref m0 this) (\<lambda>t0.
     bindE (store node (\<lambda>n. n\<lparr>m_prev := m_prev t0\<rparr>) m0) (\<lambda>m1.
     bindE (store node (\<lambda>n. n\<lparr>m_next := this\<rparr>) m1) (\<lambda>m2.
     bindE (deref m2 this) (\<lambda>t2.
     bindE (store (m_prev t2) (\<lambda>n. n\<lparr>m_next := node\<rparr>) m2) (\<lambda>m3.
     store this (\<lambda>n. n\<lparr>m_prev := node\<rparr>) m3)))))"

section \<open>Iterator\<close>

text \<open>
  An \<^verbatim>\<open>Iterator\<close> wraps the one pointer \<^verbatim>\<open>m_cursor\<close>; \<^verbatim>\<open>operator++\<close> moves it to
  \<^verbatim>\<open>m_cursor->m_next\<close>, \<^verbatim>\<open>operator--\<close> to \<^verbatim>\<open>m_cursor->m_prev\<close>, \<^verbatim>\<open>operator*\<close> reads
  \<^verbatim>\<open>m_cursor->m_data\<close>, and two iterators are equal when their cursors are.
\<close>

type_synonym iterator = addr

definition iter_incr :: "iterator \<Rightarrow> 'a memory \<Rightarrow> error + iterator" where
  "iter_incr it m = bindE (deref m it) (\<lambda>n. Inr (m_next n))"

definition iter_decr :: "iterator \<Rightarrow> 'a memory \<Rightarrow> error + iterator" where
  "iter_decr it m = bindE (deref m it) (\<lambda>n. Inr (m_prev n))"

definition iter_deref :: "iterator \<Rightarrow> 'a memory \<Rightarrow> error + 'a" where
  "iter_deref it m = bindE (deref m it) (\<lambda>n. Inr (m_data n))"

section \<open>list\<close>

text \<open>
  A \<^verbatim>\<open>list\<close> object holds the pointer \<^verbatim>\<open>m_head\<close> to its sentinel and the (empty)
  allocator. A member function takes the object as \<open>this\<close> and the store, and returns
  the store (and the object, where it assigns \<^verbatim>\<open>m_head\<close>).
\<close>

record list_obj =
  m_head :: addr

text \<open>\<^verbatim>\<open>list() { this->m_head = this->__M_create_node(); }\<close>\<close>

definition list_ctor :: "('a::default) memory \<Rightarrow> list_obj \<times> 'a memory" where
  "list_ctor m = (case M_create_node default m of (p, m') \<Rightarrow> (\<lparr>m_head = p\<rparr>, m'))"

text \<open>
  \<^verbatim>\<open>
  void push_back(UType &&data) {
      assert(this->m_head != nullptr);
      this->m_head->push_back(this->__M_create_node(std::forward<UType>(data)));
  }
  \<close>
  and \<^verbatim>\<open>push_front\<close> alike, with \<^verbatim>\<open>m_head->push_front\<close>.
\<close>

definition list_push_back :: "'a \<Rightarrow> list_obj \<Rightarrow> 'a memory \<Rightarrow> error + 'a memory" where
  "list_push_back d this m =
     (if m_head this = nullptr then Inl Assertion_failed
      else case M_create_node d m of (node, m') \<Rightarrow> Node_push_back (m_head this) node m')"

definition list_push_front :: "'a \<Rightarrow> list_obj \<Rightarrow> 'a memory \<Rightarrow> error + 'a memory" where
  "list_push_front d this m =
     (if m_head this = nullptr then Inl Assertion_failed
      else case M_create_node d m of (node, m') \<Rightarrow> Node_push_front (m_head this) node m')"

text \<open>
  \<^verbatim>\<open>
  bool empty() const noexcept {
      return (this->m_head != nullptr) ||
             ((this->m_head->m_prev == this->m_head) && (this->m_head->m_next == this->m_head));
  }
  \<close>
  The right operand of \<^verbatim>\<open>||\<close> is evaluated only when \<^verbatim>\<open>m_head\<close> is null.
\<close>

definition list_empty :: "list_obj \<Rightarrow> 'a memory \<Rightarrow> error + bool" where
  "list_empty this m =
     (if m_head this \<noteq> nullptr then Inr True
      else bindE (deref m (m_head this)) (\<lambda>h.
           if m_prev h = m_head this
           then bindE (deref m (m_head this)) (\<lambda>h'. Inr (m_next h' = m_head this))
           else Inr False))"

text \<open>
  \<^verbatim>\<open>begin()\<close> is \<^verbatim>\<open>iterator{m_head->m_next}\<close>, \<^verbatim>\<open>end()\<close> is \<^verbatim>\<open>iterator{m_head}\<close>.
\<close>

definition list_begin :: "list_obj \<Rightarrow> 'a memory \<Rightarrow> error + iterator" where
  "list_begin this m = bindE (deref m (m_head this)) (\<lambda>h. Inr (m_next h))"

definition list_end :: "list_obj \<Rightarrow> iterator" where
  "list_end this = m_head this"

text \<open>
  \<^verbatim>\<open>
  auto front() noexcept -> std::optional<std::reference_wrapper<Type>> {
      if (this->empty()) { return std::nullopt; }
      return std::optional{std::ref(this->m_head->m_next->m_data)};
  }
  \<close>
  and \<^verbatim>\<open>back()\<close> alike, with \<^verbatim>\<open>m_head->m_prev\<close>. The reference to \<^verbatim>\<open>m_data\<close> of a
  node is the node's address.
\<close>

definition list_front :: "list_obj \<Rightarrow> 'a memory \<Rightarrow> error + addr option" where
  "list_front this m =
     bindE (list_empty this m) (\<lambda>e.
       if e then Inr None
       else bindE (deref m (m_head this)) (\<lambda>h. Inr (Some (m_next h))))"

definition list_back :: "list_obj \<Rightarrow> 'a memory \<Rightarrow> error + addr option" where
  "list_back this m =
     bindE (list_empty this m) (\<lambda>e.
       if e then Inr None
       else bindE (deref m (m_head this)) (\<lambda>h. Inr (Some (m_prev h))))"

text \<open>
  \<^verbatim>\<open>size()\<close> is \<^verbatim>\<open>std::distance(this->begin(), this->end())\<close>; the iterator is
  bidirectional, so the distance is counted: \<^verbatim>\<open>while (first != last) { ++first; ++n; }\<close>.
\<close>

partial_function (option) distance ::
  "'a memory \<Rightarrow> iterator \<Rightarrow> iterator \<Rightarrow> nat \<Rightarrow> (error + nat) option" where
  "distance m first lst n =
     (if first = lst then Some (Inr n)
      else case iter_incr first m of
             Inl e \<Rightarrow> Some (Inl e)
           | Inr first' \<Rightarrow> distance m first' lst (Suc n))"

definition list_size :: "list_obj \<Rightarrow> 'a memory \<Rightarrow> (error + nat) option" where
  "list_size this m =
     (case list_begin this m of
        Inl e \<Rightarrow> Some (Inl e)
      | Inr b \<Rightarrow> distance m b (list_end this) 0)"

text \<open>
  The front-to-back element sequence, as a client reads it:
  \<^verbatim>\<open>for (auto it = l.begin(); it != l.end(); ++it) out.push_back(*it);\<close>
\<close>

partial_function (option) collect ::
  "'a memory \<Rightarrow> iterator \<Rightarrow> iterator \<Rightarrow> 'a list \<Rightarrow> (error + 'a list) option" where
  "collect m it lst acc =
     (if it = lst then Some (Inr acc)
      else case iter_deref it m of
             Inl e \<Rightarrow> Some (Inl e)
           | Inr x \<Rightarrow>
               (case iter_incr it m of
                  Inl e \<Rightarrow> Some (Inl e)
                | Inr it' \<Rightarrow> collect m it' lst (acc @ [x])))"

definition list_elements :: "list_obj \<Rightarrow> 'a memory \<Rightarrow> (error + 'a list) option" where
  "list_elements this m =
     (case list_begin this m of
        Inl e \<Rightarrow> Some (Inl e)
      | Inr b \<Rightarrow> collect m b (list_end this) [])"

text \<open>
  \<^verbatim>\<open>
  iterator erase(_iterator position) {
      auto target = position.m_cursor;
      target->m_prev->m_next = target->m_next;
      target->m_next->m_prev = target->m_prev;
      auto next = target->m_next;
      traits::destroy(this->m_alloc, target);
      traits::deallocate(this->m_alloc, target, 1UL);
      target = nullptr;
      return next;
  }
  void pop_front() { this->erase(iterator{this->m_head->m_next}); }
  void pop_back()  { this->erase(iterator{this->m_head->m_prev}); }
  \<close>
\<close>

definition list_erase :: "list_obj \<Rightarrow> iterator \<Rightarrow> 'a memory \<Rightarrow> error + iterator \<times> 'a memory" where
  "list_erase this position m0 =
     bindE (deref m0 position) (\<lambda>t0.
     bindE (store (m_prev t0) (\<lambda>n. n\<lparr>m_next := m_next t0\<rparr>) m0) (\<lambda>m1.
     bindE (deref m1 position) (\<lambda>t1.
     bindE (store (m_next t1) (\<lambda>n. n\<lparr>m_prev := m_prev t1\<rparr>) m1) (\<lambda>m2.
     bindE (deref m2 position) (\<lambda>t2.
     bindE (destroy_deallocate position m2) (\<lambda>m3.
     Inr (m_next t2, m3)))))))"

definition list_pop_front :: "list_obj \<Rightarrow> 'a memory \<Rightarrow> error + 'a memory" where
  "list_pop_front this m =
     bindE (deref m (m_head this)) (\<lambda>h.
     bindE (list_erase this (m_next h) m) (\<lambda>(next, m'). Inr m'))"

definition list_pop_back :: "list_obj \<Rightarrow> 'a memory \<Rightarrow> error + 'a memory" where
  "list_pop_back this m =
     bindE (deref m (m_head this)) (\<lambda>h.
     bindE (list_erase this (m_prev h) m) (\<lambda>(next, m'). Inr m'))"

text \<open>
  \<^verbatim>\<open>
  void clear() {
      while (not this->empty())
          this->pop_front();
      traits::destroy(this->m_alloc, this->m_head);
      traits::deallocate(this->m_alloc, this->m_head, 1UL);
      this->m_head = nullptr;
  }
  \<close>
\<close>

partial_function (option) clear_loop ::
  "list_obj \<Rightarrow> 'a memory \<Rightarrow> (error + 'a memory) option" where
  "clear_loop this m =
     (case list_empty this m of
        Inl e \<Rightarrow> Some (Inl e)
      | Inr b \<Rightarrow>
          if \<not> b
          then (case list_pop_front this m of
                  Inl e \<Rightarrow> Some (Inl e)
                | Inr m' \<Rightarrow> clear_loop this m')
          else Some (Inr m))"

definition list_clear :: "list_obj \<Rightarrow> 'a memory \<Rightarrow> (error + list_obj \<times> 'a memory) option" where
  "list_clear this m =
     (case clear_loop this m of
        None \<Rightarrow> None
      | Some (Inl e) \<Rightarrow> Some (Inl e)
      | Some (Inr m') \<Rightarrow>
          Some (bindE (destroy_deallocate (m_head this) m')
                  (\<lambda>m''. Inr (this\<lparr>m_head := nullptr\<rparr>, m''))))"

text \<open>
  \<^verbatim>\<open>
  Node *__M_clone(Node *source) {
      if (source == nullptr) { this->clear(); return source; }
      auto cursor = this->__M_create_node();
      auto end = source->m_prev;
      while (source != end) {
          cursor->push_back(this->__M_create_node(source->m_data));
          source = source->m_next;
      }
      return cursor;
  }
  list(const list &outer) : m_alloc{...} { this->m_head = this->__M_clone(outer.m_head->m_next); }
  \<close>
  The copy constructor calls \<^verbatim>\<open>__M_clone\<close> before \<^verbatim>\<open>m_head\<close> is initialised:
  \<open>uninit\<close> is the indeterminate value it holds then.
\<close>

partial_function (option) clone_loop ::
  "addr \<Rightarrow> addr \<Rightarrow> addr \<Rightarrow> 'a memory \<Rightarrow> (error + 'a memory) option" where
  "clone_loop cursor source stop m =
     (if source = stop then Some (Inr m)
      else case deref m source of
             Inl e \<Rightarrow> Some (Inl e)
           | Inr s \<Rightarrow>
               (case M_create_node (m_data s) m of
                  (node, m1) \<Rightarrow>
                    (case Node_push_back cursor node m1 of
                       Inl e \<Rightarrow> Some (Inl e)
                     | Inr m2 \<Rightarrow>
                         (case deref m2 source of
                            Inl e \<Rightarrow> Some (Inl e)
                          | Inr s' \<Rightarrow> clone_loop cursor (m_next s') stop m2))))"

definition M_clone ::
  "list_obj \<Rightarrow> addr \<Rightarrow> ('a::default) memory \<Rightarrow> (error + addr \<times> list_obj \<times> 'a memory) option" where
  "M_clone this source m =
     (if source = nullptr
      then (case list_clear this m of
              None \<Rightarrow> None
            | Some (Inl e) \<Rightarrow> Some (Inl e)
            | Some (Inr (this', m')) \<Rightarrow> Some (Inr (source, this', m')))
      else case M_create_node default m of
             (cursor, m1) \<Rightarrow>
               (case deref m1 source of
                  Inl e \<Rightarrow> Some (Inl e)
                | Inr s \<Rightarrow>
                    (case clone_loop cursor source (m_prev s) m1 of
                       None \<Rightarrow> None
                     | Some (Inl e) \<Rightarrow> Some (Inl e)
                     | Some (Inr m2) \<Rightarrow> Some (Inr (cursor, this, m2)))))"

definition list_copy_ctor ::
  "addr \<Rightarrow> list_obj \<Rightarrow> ('a::default) memory \<Rightarrow> (error + list_obj \<times> 'a memory) option" where
  "list_copy_ctor uninit outer m =
     (case deref m (m_head outer) of
        Inl e \<Rightarrow> Some (Inl e)
      | Inr h \<Rightarrow>
          (case M_clone \<lparr>m_head = uninit\<rparr> (m_next h) m of
             None \<Rightarrow> None
           | Some (Inl e) \<Rightarrow> Some (Inl e)
           | Some (Inr (p, this, m')) \<Rightarrow> Some (Inr (this\<lparr>m_head := p\<rparr>, m'))))"

text \<open>
  \<^verbatim>\<open>
  list(list &&outer) : m_alloc{std::move(outer.m_alloc)} {
      this->m_head = std::exchange(outer.m_head, this->__M_create_node());
  }
  \<close>
  The result is the new list, the moved-from \<^verbatim>\<open>outer\<close> and the store.
\<close>

definition list_move_ctor ::
  "list_obj \<Rightarrow> ('a::default) memory \<Rightarrow> list_obj \<times> list_obj \<times> 'a memory" where
  "list_move_ctor outer m =
     (case M_create_node default m of
        (p, m') \<Rightarrow> (\<lparr>m_head = m_head outer\<rparr>, outer\<lparr>m_head := p\<rparr>, m'))"

text \<open>
  \<^verbatim>\<open>
  void __M_range_init(_iterator first, _sentinel last) {
      for (; first != last; first = std::ranges::next(first))
          this->m_head->push_back(this->__M_create_node(*first));
  }
  \<close>
  with the iterators of another list as the range.
\<close>

partial_function (option) M_range_init ::
  "list_obj \<Rightarrow> iterator \<Rightarrow> iterator \<Rightarrow> 'a memory \<Rightarrow> (error + 'a memory) option" where
  "M_range_init this first lst m =
     (if first = lst then Some (Inr m)
      else case iter_deref first m of
             Inl e \<Rightarrow> Some (Inl e)
           | Inr x \<Rightarrow>
               (case M_create_node x m of
                  (node, m1) \<Rightarrow>
                    (case Node_push_back (m_head this) node m1 of
                       Inl e \<Rightarrow> Some (Inl e)
                     | Inr m2 \<Rightarrow>
                         (case iter_incr first m2 of
                            Inl e \<Rightarrow> Some (Inl e)
                          | Inr first' \<Rightarrow> M_range_init this first' lst m2))))"

text \<open>
  \<^verbatim>\<open>
  void insert_before(_iterator position, UType &&data) {
      Node *node = position.m_cursor;
      node->push_back(this->__M_create_node(std::forward<UType>(data)));
  }
  void insert_after(_iterator position, UType &&data) {
      Node *node = position.m_cursor;
      node->push_front(this->__M_create_node(std::forward<UType>(data)));
  }
  void insert_before(_iterator position, _Iterator first, _Sentinel last) {
      while (first != last)
          this->insert_before(position, *first++);
  }
  iterator erase(_iterator first, _sentinel last) {
      while (first != last)
          this->erase(first++);
      return last;
  }
  \<close>
\<close>

definition list_insert_before :: "list_obj \<Rightarrow> iterator \<Rightarrow> 'a \<Rightarrow> 'a memory \<Rightarrow> error + 'a memory" where
  "list_insert_before this position d m =
     (case M_create_node d m of (node, m') \<Rightarrow> Node_push_back position node m')"

definition list_insert_after :: "list_obj \<Rightarrow> iterator \<Rightarrow> 'a \<Rightarrow> 'a memory \<Rightarrow> error + 'a memory" where
  "list_insert_after this position d m =
     (case M_create_node d m of (node, m') \<Rightarrow> Node_push_front position node m')"

partial_function (option) insert_before_range ::
  "list_obj \<Rightarrow> iterator \<Rightarrow> iterator \<Rightarrow> iterator \<Rightarrow> 'a memory \<Rightarrow> (error + 'a memory) option" where
  "insert_before_range this position first lst m =
     (if first = lst then Some (Inr m)
      else case iter_incr first m of
             Inl e \<Rightarrow> Some (Inl e)
           | Inr first' \<Rightarrow>
               (case iter_deref first m of
                  Inl e \<Rightarrow> Some (Inl e)
                | Inr x \<Rightarrow>
                    (case list_insert_before this position x m of
                       Inl e \<Rightarrow> Some (Inl e)
                     | Inr m1 \<Rightarrow> insert_before_range this position first' lst m1)))"

partial_function (option) erase_range ::
  "list_obj \<Rightarrow> iterator \<Rightarrow> iterator \<Rightarrow> 'a memory \<Rightarrow> (error + iterator \<times> 'a memory) option" where
  "erase_range this first lst m =
     (if first = lst then Some (Inr (lst, m))
      else case iter_incr first m of
             Inl e \<Rightarrow> Some (Inl e)
           | Inr first' \<Rightarrow>
               (case list_erase this first m of
                  Inl e \<Rightarrow> Some (Inl e)
                | Inr (next, m1) \<Rightarrow> erase_range this first' lst m1))"

text \<open>
  \<^verbatim>\<open>
  void __M_assign(_iterator first, _sentinel last) {
      if (first == last) { this->clear(); return; }
      if (this->empty()) { this->__M_range_init(first, last); return; }
      auto begin = std::ranges::begin(*this);
      auto end = std::ranges::end(*this);
      while ((first != last) && (begin != end)) {
          *begin = *first;
          begin = std::ranges::next(begin);
          first = std::ranges::next(first);
      }
      if (first != last) { this->insert_before(begin, first, last); }
      else { this->erase(begin, end); }
  }
  \<close>
\<close>

partial_function (option) assign_loop ::
  "iterator \<Rightarrow> iterator \<Rightarrow> iterator \<Rightarrow> iterator \<Rightarrow> 'a memory \<Rightarrow>
     (error + iterator \<times> iterator \<times> 'a memory) option" where
  "assign_loop first lst bgn stop m =
     (if first \<noteq> lst \<and> bgn \<noteq> stop
      then (case iter_deref first m of
              Inl e \<Rightarrow> Some (Inl e)
            | Inr x \<Rightarrow>
                (case store bgn (\<lambda>n. n\<lparr>m_data := x\<rparr>) m of
                   Inl e \<Rightarrow> Some (Inl e)
                 | Inr m1 \<Rightarrow>
                     (case iter_incr bgn m1 of
                        Inl e \<Rightarrow> Some (Inl e)
                      | Inr bgn' \<Rightarrow>
                          (case iter_incr first m1 of
                             Inl e \<Rightarrow> Some (Inl e)
                           | Inr first' \<Rightarrow> assign_loop first' lst bgn' stop m1))))
      else Some (Inr (first, bgn, m)))"

definition M_assign ::
  "list_obj \<Rightarrow> iterator \<Rightarrow> iterator \<Rightarrow> 'a memory \<Rightarrow> (error + list_obj \<times> 'a memory) option" where
  "M_assign this first lst m =
     (if first = lst then list_clear this m
      else case list_empty this m of
             Inl e \<Rightarrow> Some (Inl e)
           | Inr b \<Rightarrow>
               if b
               then (case M_range_init this first lst m of
                       None \<Rightarrow> None
                     | Some (Inl e) \<Rightarrow> Some (Inl e)
                     | Some (Inr m') \<Rightarrow> Some (Inr (this, m')))
               else (case list_begin this m of
                       Inl e \<Rightarrow> Some (Inl e)
                     | Inr bgn \<Rightarrow>
                         (case assign_loop first lst bgn (list_end this) m of
                            None \<Rightarrow> None
                          | Some (Inl e) \<Rightarrow> Some (Inl e)
                          | Some (Inr (first', bgn', m1)) \<Rightarrow>
                              if first' \<noteq> lst
                              then (case insert_before_range this bgn' first' lst m1 of
                                      None \<Rightarrow> None
                                    | Some (Inl e) \<Rightarrow> Some (Inl e)
                                    | Some (Inr m2) \<Rightarrow> Some (Inr (this, m2)))
                              else (case erase_range this bgn' (list_end this) m1 of
                                      None \<Rightarrow> None
                                    | Some (Inl e) \<Rightarrow> Some (Inl e)
                                    | Some (Inr (next, m2)) \<Rightarrow> Some (Inr (this, m2))))))"

text \<open>
  \<^verbatim>\<open>
  void __M_copy_assign(const list &outer, std::true_type) {
      if constexpr (not typename traits::is_always_equal{}) { ... }
      this->__M_assign(std::ranges::begin(outer), std::ranges::end(outer));
  }
  void __M_copy_assign(const list &outer, std::false_type) {
      this->clear();
      this->__M_assign(std::ranges::begin(outer), std::ranges::end(outer));
  }
  list &operator=(const list &rhs) {
      if (this == std::addressof(rhs)) { return *this; }
      this->__M_copy_assign(rhs, typename traits::propagate_on_container_copy_assignment{});
      return *this;
  }
  \<close>
  For \<^verbatim>\<open>std::allocator\<close>, \<^verbatim>\<open>is_always_equal\<close> is \<^verbatim>\<open>true_type\<close> (the \<^verbatim>\<open>if constexpr\<close>
  block is discarded) and \<^verbatim>\<open>propagate_on_container_copy_assignment\<close> is
  \<^verbatim>\<open>false_type\<close>. The tag is the first argument of \<open>M_copy_assign\<close>; \<open>same\<close> says
  whether \<^verbatim>\<open>this == std::addressof(rhs)\<close>.
\<close>

definition M_copy_assign ::
  "bool \<Rightarrow> list_obj \<Rightarrow> list_obj \<Rightarrow> 'a memory \<Rightarrow> (error + list_obj \<times> 'a memory) option" where
  "M_copy_assign propagate this outer m =
     (if propagate
      then (case list_begin outer m of
              Inl e \<Rightarrow> Some (Inl e)
            | Inr first \<Rightarrow> M_assign this first (list_end outer) m)
      else (case list_clear this m of
              None \<Rightarrow> None
            | Some (Inl e) \<Rightarrow> Some (Inl e)
            | Some (Inr (this', m')) \<Rightarrow>
                (case list_begin outer m' of
                   Inl e \<Rightarrow> Some (Inl e)
                 | Inr first \<Rightarrow> M_assign this' first (list_end outer) m')))"

definition list_copy_assign ::
  "bool \<Rightarrow> list_obj \<Rightarrow> list_obj \<Rightarrow> 'a memory \<Rightarrow> (error + list_obj \<times> 'a memory) option" where
  "list_copy_assign same this rhs m =
     (if same then Some (Inr (this, m)) else M_copy_assign False this rhs m)"

text \<open>
  \<^verbatim>\<open>list(std::initializer_list<Type> lst)\<close> delegates to the iterator-range constructor:
  the default constructor, then \<^verbatim>\<open>__M_range_init\<close> over the values of the range.
\<close>

primrec M_range_init_values :: "'a list \<Rightarrow> list_obj \<Rightarrow> 'a memory \<Rightarrow> error + 'a memory" where
  "M_range_init_values [] this m = Inr m"
| "M_range_init_values (x # xs) this m =
     (case M_create_node x m of
        (node, m1) \<Rightarrow> bindE (Node_push_back (m_head this) node m1) (M_range_init_values xs this))"

definition list_ctor_values ::
  "('a::default) list \<Rightarrow> 'a memory \<Rightarrow> error + list_obj \<times> 'a memory" where
  "list_ctor_values xs m =
     (case list_ctor m of (l, m0) \<Rightarrow> bindE (M_range_init_values xs l m0) (\<lambda>m'. Inr (l, m')))"

text \<open>
  \<^verbatim>\<open>
  void emplace_back(ARGS &&...args) {
      assert(this->m_head != nullptr);
      this->m_head->push_back(this->__M_create_node(std::in_place, std::forward<ARGS>(args)...));
  }
  void emplace_after(_iterator position, ARGS &&...args) {
      assert(this->m_head != nullptr);
      Node *node = position.m_cursor;
      node->push_front(this->__M_create_node(std::in_place, std::forward<ARGS>(args)...));
  }
  \<close>
  and \<^verbatim>\<open>emplace_front\<close>, \<^verbatim>\<open>emplace_before\<close> alike, with \<^verbatim>\<open>m_head->push_front\<close> and
  \<^verbatim>\<open>node->push_back\<close>. \<open>d\<close> is the element that \<^verbatim>\<open>Type(args...)\<close> constructs.
\<close>

definition list_emplace_back :: "'a \<Rightarrow> list_obj \<Rightarrow> 'a memory \<Rightarrow> error + 'a memory" where
  "list_emplace_back d this m =
     (if m_head this = nullptr then Inl Assertion_failed
      else case M_create_node d m of (node, m') \<Rightarrow> Node_push_back (m_head this) node m')"

definition list_emplace_front :: "'a \<Rightarrow> list_obj \<Rightarrow> 'a memory \<Rightarrow> error + 'a memory" where
  "list_emplace_front d this m =
     (if m_head this = nullptr then Inl Assertion_failed
      else case M_create_node d m of (node, m') \<Rightarrow> Node_push_front (m_head this) node m')"

definition list_emplace_after :: "list_obj \<Rightarrow> iterator \<Rightarrow> 'a \<Rightarrow> 'a memory \<Rightarrow> error + 'a memory" where
  "list_emplace_after this position d m =
     (if m_head this = nullptr then Inl Assertion_failed
      else case M_create_node d m of (node, m') \<Rightarrow> Node_push_front position node m')"

definition list_emplace_before :: "list_obj \<Rightarrow> iterator \<Rightarrow> 'a \<Rightarrow> 'a memory \<Rightarrow> error + 'a memory" where
  "list_emplace_before this position d m =
     (if m_head this = nullptr then Inl Assertion_failed
      else case M_create_node d m of (node, m') \<Rightarrow> Node_push_back position node m')"

text \<open>
  \<^verbatim>\<open>
  void insert_after(_iterator position, size_type count, UType &&data) {
      while (count--)
          this->insert_after(position, std::forward<UType>(data));
  }
  void insert_before(_iterator position, size_type count, UType &&data) {
      while (count--)
          this->insert_before(position, std::forward<UType>(data));
  }
  \<close>
  Each round constructs a node from \<^verbatim>\<open>std::forward<UType>(data)\<close>. What that yields and
  what it leaves in \<^verbatim>\<open>data\<close> belongs to the element type: \<open>forwarded d\<close> is the pair of
  the element constructed and the value \<^verbatim>\<open>data\<close> holds afterwards (\<open>(d, d)\<close> for an
  lvalue argument or a type like \<^verbatim>\<open>int\<close>; a moved-from value in the second place for an
  rvalue of a type with a move constructor).
\<close>

primrec insert_after_count ::
  "('a \<Rightarrow> 'a \<times> 'a) \<Rightarrow> list_obj \<Rightarrow> iterator \<Rightarrow> nat \<Rightarrow> 'a \<Rightarrow> 'a memory \<Rightarrow> error + 'a memory" where
  "insert_after_count forwarded this position 0 d m = Inr m"
| "insert_after_count forwarded this position (Suc count) d m =
     (case forwarded d of
        (v, d') \<Rightarrow>
          bindE (list_insert_after this position v m)
            (insert_after_count forwarded this position count d'))"

primrec insert_before_count ::
  "('a \<Rightarrow> 'a \<times> 'a) \<Rightarrow> list_obj \<Rightarrow> iterator \<Rightarrow> nat \<Rightarrow> 'a \<Rightarrow> 'a memory \<Rightarrow> error + 'a memory" where
  "insert_before_count forwarded this position 0 d m = Inr m"
| "insert_before_count forwarded this position (Suc count) d m =
     (case forwarded d of
        (v, d') \<Rightarrow>
          bindE (list_insert_before this position v m)
            (insert_before_count forwarded this position count d'))"

text \<open>
  \<^verbatim>\<open>
  void insert_after(_iterator position, _Iterator first, _Sentinel last) {
      while (first != last) {
          this->insert_after(position, *first);
          position = std::ranges::next(position);
          first = std::ranges::next(first);
      }
  }
  \<close>
  and \<^verbatim>\<open>insert_before(position, first, last)\<close> (above), here with a range that yields the
  values \<open>xs\<close> (an array, an \<^verbatim>\<open>initializer_list\<close>), and \<^verbatim>\<open>insert_after\<close> also with the
  iterators of a list as the range.
\<close>

primrec insert_after_values ::
  "list_obj \<Rightarrow> iterator \<Rightarrow> 'a list \<Rightarrow> 'a memory \<Rightarrow> error + 'a memory" where
  "insert_after_values this position [] m = Inr m"
| "insert_after_values this position (x # xs) m =
     bindE (list_insert_after this position x m) (\<lambda>m1.
     bindE (iter_incr position m1) (\<lambda>position'.
     insert_after_values this position' xs m1))"

primrec insert_before_values ::
  "list_obj \<Rightarrow> iterator \<Rightarrow> 'a list \<Rightarrow> 'a memory \<Rightarrow> error + 'a memory" where
  "insert_before_values this position [] m = Inr m"
| "insert_before_values this position (x # xs) m =
     bindE (list_insert_before this position x m) (insert_before_values this position xs)"

partial_function (option) insert_after_range ::
  "list_obj \<Rightarrow> iterator \<Rightarrow> iterator \<Rightarrow> iterator \<Rightarrow> 'a memory \<Rightarrow> (error + 'a memory) option" where
  "insert_after_range this position first lst m =
     (if first = lst then Some (Inr m)
      else case iter_deref first m of
             Inl e \<Rightarrow> Some (Inl e)
           | Inr x \<Rightarrow>
               (case list_insert_after this position x m of
                  Inl e \<Rightarrow> Some (Inl e)
                | Inr m1 \<Rightarrow>
                    (case iter_incr position m1 of
                       Inl e \<Rightarrow> Some (Inl e)
                     | Inr position' \<Rightarrow>
                         (case iter_incr first m1 of
                            Inl e \<Rightarrow> Some (Inl e)
                          | Inr first' \<Rightarrow> insert_after_range this position' first' lst m1))))"

text \<open>
  \<^verbatim>\<open>
  explicit list(Iterator first, Sentinel last) : list{} { this->__M_range_init(first, last); }
  \<close>
  with the iterators of a list as the range (\<open>list_ctor_values\<close> is the same constructor
  on a range of values).
\<close>

definition list_ctor_range ::
  "iterator \<Rightarrow> iterator \<Rightarrow> ('a::default) memory \<Rightarrow> (error + list_obj \<times> 'a memory) option" where
  "list_ctor_range first lst m =
     (case list_ctor m of
        (l, m0) \<Rightarrow>
          (case M_range_init l first lst m0 of
             None \<Rightarrow> None
           | Some (Inl e) \<Rightarrow> Some (Inl e)
           | Some (Inr m') \<Rightarrow> Some (Inr (l, m'))))"

text \<open>
  \<^verbatim>\<open>
  void __M_move_assign(list &outer, std::true_type) {
      this->clear();
      this->m_alloc = std::move(outer.m_alloc);
      this->m_head  = std::exchange(outer.m_head, this->__M_create_node());
  }
  void __M_move_assign(list &outer, std::false_type) {
      if (this->m_alloc == outer.m_alloc) { this->__M_move_assign(outer, std::true_type{}); }
      else { this->m_head = std::exchange(outer.m_head, this->__M_create_node()); }
  }
  list &operator=(list &&rhs) {
      if (this == std::addressof(rhs)) return *this;
      constexpr bool _is_propagate = std::disjunction<
          typename traits::propagate_on_container_move_assignment,
          typename traits::is_always_equal>{};
      this->__M_move_assign(rhs, std::bool_constant<_is_propagate>{});
      return *this;
  }
  \<close>
  Two \<^verbatim>\<open>std::allocator\<close> objects always compare equal, and both traits are
  \<^verbatim>\<open>true_type\<close>, so \<^verbatim>\<open>_is_propagate\<close> is true. The result is \<^verbatim>\<open>*this\<close>, the moved-from
  \<^verbatim>\<open>rhs\<close> and the store; \<open>same\<close> says whether \<^verbatim>\<open>this == std::addressof(rhs)\<close>.
\<close>

definition allocators_equal :: bool where
  "allocators_equal = True"

definition M_move_assign ::
  "bool \<Rightarrow> list_obj \<Rightarrow> list_obj \<Rightarrow> ('a::default) memory \<Rightarrow>
     (error + list_obj \<times> list_obj \<times> 'a memory) option" where
  "M_move_assign propagate this outer m =
     (if propagate \<or> allocators_equal
      then (case list_clear this m of
              None \<Rightarrow> None
            | Some (Inl e) \<Rightarrow> Some (Inl e)
            | Some (Inr (this', m1)) \<Rightarrow>
                (case M_create_node default m1 of
                   (p, m2) \<Rightarrow> Some (Inr (this'\<lparr>m_head := m_head outer\<rparr>, outer\<lparr>m_head := p\<rparr>, m2))))
      else (case M_create_node default m of
              (p, m2) \<Rightarrow> Some (Inr (this\<lparr>m_head := m_head outer\<rparr>, outer\<lparr>m_head := p\<rparr>, m2))))"

definition list_move_assign ::
  "bool \<Rightarrow> list_obj \<Rightarrow> list_obj \<Rightarrow> ('a::default) memory \<Rightarrow>
     (error + list_obj \<times> list_obj \<times> 'a memory) option" where
  "list_move_assign same this rhs m =
     (if same then Some (Inr (this, rhs, m)) else M_move_assign True this rhs m)"

section \<open>The ring of a list\<close>

text \<open>
  The store before any allocation. Address 0 is \<^verbatim>\<open>nullptr\<close>, so the first node is at 1.
\<close>

definition empty_memory :: "'a memory" where
  "empty_memory = \<lparr>cells = Map.empty, brk = 1\<rparr>"

text \<open>
  \<open>dseg m pv p as q lst\<close>: starting at \<open>p\<close>, whose predecessor is \<open>pv\<close>, the nodes
  \<open>as\<close> are linked in this order by \<open>m_next\<close> and back by \<open>m_prev\<close>; the \<open>m_next\<close>
  of the last one is \<open>q\<close>, and \<open>lst\<close> is the last node (\<open>pv\<close> when \<open>as\<close> is empty).
  \<open>cring m cyc\<close>: the distinct nodes \<open>cyc\<close> form a closed doubly-linked cycle.
  \<open>ring m h as\<close>: the list with sentinel \<open>h\<close> holds the real nodes \<open>as\<close>, front to
  back. \<open>alloc_ok\<close>: the allocator's invariant (live nodes lie below \<open>brk\<close>, none at
  \<^verbatim>\<open>nullptr\<close>).
\<close>

primrec dseg :: "'a memory \<Rightarrow> addr \<Rightarrow> addr \<Rightarrow> addr list \<Rightarrow> addr \<Rightarrow> addr \<Rightarrow> bool" where
  "dseg m pv p [] q lst = (p = q \<and> pv = lst)"
| "dseg m pv p (a # as) q lst =
     (p = a \<and> (case cells m a of None \<Rightarrow> False | Some n \<Rightarrow> m_prev n = pv \<and> dseg m a (m_next n) as q lst))"

definition cring :: "'a memory \<Rightarrow> addr list \<Rightarrow> bool" where
  "cring m cyc = (cyc \<noteq> [] \<and> distinct cyc \<and> dseg m (last cyc) (hd cyc) cyc (hd cyc) (last cyc))"

definition ring :: "'a memory \<Rightarrow> addr \<Rightarrow> addr list \<Rightarrow> bool" where
  "ring m h as = cring m (h # as)"

definition alloc_ok :: "'a memory \<Rightarrow> bool" where
  "alloc_ok m = (0 < brk m \<and> (\<forall>a. cells m a \<noteq> None \<longrightarrow> 0 < a \<and> a < brk m))"

text \<open>
  \<open>datas m as\<close>: the elements stored in the nodes \<open>as\<close>, in this order.
  \<open>data_at m a\<close>: the element of the node at \<open>a\<close>, or \<open>None\<close> when no node is allocated
  there. \<open>follow_next m p k\<close>: the node reached from \<open>p\<close> by following \<^verbatim>\<open>m_next\<close> k
  times. \<open>links_ok m n\<close>: \<^verbatim>\<open>n.prev.next == n\<close> and \<^verbatim>\<open>n.next.prev == n\<close>, all three
  nodes allocated.
\<close>

definition datas :: "'a memory \<Rightarrow> addr list \<Rightarrow> 'a list" where
  "datas m as = map (\<lambda>a. m_data (the (cells m a))) as"

definition data_at :: "'a memory \<Rightarrow> addr \<Rightarrow> 'a option" where
  "data_at m a = map_option m_data (cells m a)"

primrec follow_next :: "'a memory \<Rightarrow> addr \<Rightarrow> nat \<Rightarrow> addr option" where
  "follow_next m p 0 = Some p"
| "follow_next m p (Suc k) = (case cells m p of None \<Rightarrow> None | Some n \<Rightarrow> follow_next m (m_next n) k)"

definition links_ok :: "'a memory \<Rightarrow> addr \<Rightarrow> bool" where
  "links_ok m n =
     (case cells m n of
        None \<Rightarrow> False
      | Some nd \<Rightarrow>
          (case cells m (m_prev nd) of None \<Rightarrow> False | Some pn \<Rightarrow> m_next pn = n) \<and>
          (case cells m (m_next nd) of None \<Rightarrow> False | Some nn \<Rightarrow> m_prev nn = n))"

text \<open>
  The scenario \<^verbatim>\<open>list<int> l; l.push_back(1); l.push_back(2); l.push_front(0);\<close>
  from the empty store.
\<close>

definition scenario_push :: "error + list_obj \<times> int memory" where
  "scenario_push =
     (case list_ctor empty_memory of
        (l, m0) \<Rightarrow>
          bindE (list_push_back 1 l m0) (\<lambda>m1.
          bindE (list_push_back 2 l m1) (\<lambda>m2.
          bindE (list_push_front 0 l m2) (\<lambda>m3. Inr (l, m3)))))"

text \<open>
  The ring invariant in the words of the specification: every node reached from the
  head by \<^verbatim>\<open>m_next\<close> is allocated and has \<^verbatim>\<open>n.prev.next == n\<close> and
  \<^verbatim>\<open>n.next.prev == n\<close>, \<^verbatim>\<open>size()\<close> returns some n, and following \<^verbatim>\<open>m_next\<close> from the
  head comes back to the head after n + 1 steps and not before.
\<close>

definition ring_props :: "list_obj \<Rightarrow> 'a memory \<Rightarrow> bool" where
  "ring_props this m =
     ((\<forall>k. case follow_next m (m_head this) k of None \<Rightarrow> False | Some n \<Rightarrow> links_ok m n) \<and>
      (\<exists>n. list_size this m = Some (Inr n) \<and>
           follow_next m (m_head this) (n + 1) = Some (m_head this) \<and>
           (\<forall>k. 0 < k \<and> k \<le> n \<longrightarrow> follow_next m (m_head this) k \<noteq> Some (m_head this))))"

text \<open>
  What a client does to a list: \<^verbatim>\<open>push_back(d)\<close>, \<^verbatim>\<open>push_front(d)\<close>, \<^verbatim>\<open>pop_front()\<close>,
  \<^verbatim>\<open>pop_back()\<close> and \<^verbatim>\<open>erase(std::next(begin(), k))\<close>, and a sequence of these calls on
  the same list. \<^verbatim>\<open>std::next(it, k)\<close> applies \<^verbatim>\<open>operator++\<close> k times.
\<close>

primrec iter_advance :: "nat \<Rightarrow> iterator \<Rightarrow> 'a memory \<Rightarrow> error + iterator" where
  "iter_advance 0 it m = Inr it"
| "iter_advance (Suc k) it m = bindE (iter_incr it m) (\<lambda>it'. iter_advance k it' m)"

datatype 'a mutation = Push_back 'a | Push_front 'a | Pop_front | Pop_back | Erase_at nat

fun mutate :: "'a mutation \<Rightarrow> list_obj \<Rightarrow> 'a memory \<Rightarrow> error + 'a memory" where
  "mutate (Push_back d) l m = list_push_back d l m"
| "mutate (Push_front d) l m = list_push_front d l m"
| "mutate Pop_front l m = list_pop_front l m"
| "mutate Pop_back l m = list_pop_back l m"
| "mutate (Erase_at k) l m =
     bindE (list_begin l m) (\<lambda>b.
     bindE (iter_advance k b m) (\<lambda>it.
     bindE (list_erase l it m) (\<lambda>(next, m'). Inr m')))"

primrec mutate_all :: "'a mutation list \<Rightarrow> list_obj \<Rightarrow> 'a memory \<Rightarrow> error + 'a memory" where
  "mutate_all [] l m = Inr m"
| "mutate_all (x # xs) l m = bindE (mutate x l m) (mutate_all xs l)"

text \<open>
  The scenario above followed by \<^verbatim>\<open>list<int> l2{7, 8};\<close>: two lists in one store.
\<close>

definition scenario_two_lists :: "error + list_obj \<times> list_obj \<times> int memory" where
  "scenario_two_lists =
     bindE scenario_push (\<lambda>(l, m).
     bindE (list_ctor_values [7, 8] m) (\<lambda>(l2, m'). Inr (l, l2, m')))"

text \<open>
  The nodes of a ring after an insertion: \<open>put_before p news as\<close> has the new nodes
  before \<open>p\<close>, which is at the end of \<open>as\<close> when \<open>p\<close> is the sentinel;
  \<open>put_after p news cyc\<close> has them after \<open>p\<close> in the cycle \<open>cyc\<close> that starts with the
  sentinel. \<open>ring_kept\<close>: the ring with these real nodes, the allocator's invariant and
  the ring invariant in the words of the specification.
\<close>

primrec put_before :: "addr \<Rightarrow> addr list \<Rightarrow> addr list \<Rightarrow> addr list" where
  "put_before p news [] = news"
| "put_before p news (a # as) = (if a = p then news @ a # as else a # put_before p news as)"

primrec put_after :: "addr \<Rightarrow> addr list \<Rightarrow> addr list \<Rightarrow> addr list" where
  "put_after p news [] = []"
| "put_after p news (a # cyc) = (if a = p then a # news @ cyc else a # put_after p news cyc)"

definition ring_kept :: "list_obj \<Rightarrow> 'a memory \<Rightarrow> addr list \<Rightarrow> bool" where
  "ring_kept this m as = (alloc_ok m \<and> ring m (m_head this) as \<and> ring_props this m)"

section \<open>Basic facts\<close>

lemma bindE_Inl [simp]: "bindE (Inl e) f = Inl e"
  by (simp add: bindE_def)

lemma bindE_Inr [simp]: "bindE (Inr v) f = f v"
  by (simp add: bindE_def)

lemma deref_Some [simp]: "cells m p = Some n \<Longrightarrow> deref m p = Inr n"
  by (simp add: deref_def)

lemma deref_null [simp]: "cells m nullptr = None \<Longrightarrow> deref m nullptr = Inl Null_deref"
  by (simp add: deref_def)

lemma list_empty_nonnull: "m_head this \<noteq> nullptr \<Longrightarrow> list_empty this m = Inr True"
  by (simp add: list_empty_def)

subsection \<open>Segments and cycles\<close>

lemma dseg_frame:
  "(\<forall>a\<in>set as. cells m' a = cells m a) \<Longrightarrow> dseg m' pv p as q lst = dseg m pv p as q lst"
  by (induction as arbitrary: pv p) (auto split: option.splits)

lemma dseg_snoc:
  "dseg m pv p (as @ [a]) q lst =
     (\<exists>l1 n. dseg m pv p as a l1 \<and> cells m a = Some n \<and> m_prev n = l1 \<and> m_next n = q \<and> lst = a)"
  by (induction as arbitrary: pv p) (auto split: option.splits)

lemma dseg_append:
  "dseg m pv p (as @ bs) q lst = (\<exists>mid l1. dseg m pv p as mid l1 \<and> dseg m l1 mid bs q lst)"
  by (induction as arbitrary: pv p) (auto split: option.splits)

lemma dseg_last: "dseg m pv p as q lst \<Longrightarrow> lst = last (pv # as)"
  by (induction as arbitrary: pv p) (auto split: option.splits)

lemma dseg_hd: "dseg m pv p as q lst \<Longrightarrow> p = hd (as @ [q])"
  by (cases as) auto

lemma dseg_allocated: "dseg m pv p as q lst \<Longrightarrow> a \<in> set as \<Longrightarrow> cells m a \<noteq> None"
  by (induction as arbitrary: pv p) (auto split: option.splits)

lemma cring_rotate1: "cring m (a # c) \<Longrightarrow> cring m (c @ [a])"
proof -
  assume r: "cring m (a # c)"
  then obtain n where n: "cells m a = Some n" "m_prev n = last (a # c)"
    and seg: "dseg m a (m_next n) c a (last (a # c))" and d: "distinct (a # c)"
    by (auto simp: cring_def split: option.splits)
  have hd: "m_next n = hd (c @ [a])" using dseg_hd[OF seg] .
  have "dseg m a (hd (c @ [a])) (c @ [a]) (hd (c @ [a])) a"
    unfolding dseg_snoc using seg n hd by auto
  with d show ?thesis by (auto simp: cring_def)
qed

lemma cring_rotate: "cring m (xs @ ys) \<Longrightarrow> cring m (ys @ xs)"
proof (induction xs arbitrary: ys)
  case Nil then show ?case by simp
next
  case (Cons a xs)
  from Cons.prems have "cring m ((xs @ ys) @ [a])" using cring_rotate1[of m a "xs @ ys"] by simp
  then have "cring m (xs @ (ys @ [a]))" by simp
  from Cons.IH[OF this] show ?case by simp
qed

lemma cring_allocated: "cring m cyc \<Longrightarrow> a \<in> set cyc \<Longrightarrow> cells m a \<noteq> None"
  unfolding cring_def using dseg_allocated by blast

subsection \<open>The linkage primitives and erase on a cycle\<close>

lemma Node_push_back_cring:
  assumes r: "cring m (t # rest)" and nd: "cells m nd \<noteq> None" "nd \<notin> set (t # rest)"
  shows "\<exists>m'. Node_push_back t nd m = Inr m' \<and> cring m' (t # rest @ [nd]) \<and> brk m' = brk m
           \<and> (\<forall>a. a \<notin> {t, last (t # rest), nd} \<longrightarrow> cells m' a = cells m a)
           \<and> (\<forall>a. data_at m' a = data_at m a)"
proof -
  from r obtain T where T: "cells m t = Some T" "m_prev T = last (t # rest)"
    and seg: "dseg m t (m_next T) rest t (last (t # rest))" and d: "distinct (t # rest)"
    by (auto simp: cring_def split: option.splits)
  from nd obtain N where N: "cells m nd = Some N" by auto
  show ?thesis
  proof (cases rest rule: rev_cases)
    case Nil
    with T seg N nd d show ?thesis
      by (auto simp: Node_push_back_def store_def cring_def data_at_def)
  next
    case (snoc r l)
    with seg obtain L where L: "cells m l = Some L" "m_next L = t"
      and seg': "dseg m t (m_next T) r l (m_prev L)"
      by (auto simp: dseg_snoc)
    let ?m' = "m\<lparr>cells := (cells m)(nd \<mapsto> N\<lparr>m_prev := l, m_next := t\<rparr>, l \<mapsto> L\<lparr>m_next := nd\<rparr>, t \<mapsto> T\<lparr>m_prev := nd\<rparr>)\<rparr>"
    have neq: "l \<noteq> t" "nd \<noteq> t" "nd \<noteq> l" "t \<notin> set r" "l \<notin> set r" "nd \<notin> set r"
      using d nd snoc by auto
    have run: "Node_push_back t nd m = Inr ?m'"
      using T N L neq snoc by (simp add: Node_push_back_def store_def)
    have "dseg ?m' t (m_next T) r l (m_prev L) = dseg m t (m_next T) r l (m_prev L)"
      by (rule dseg_frame) (use neq in auto)
    with seg' have s2: "dseg ?m' t (m_next T) r l (m_prev L)" by simp
    have "dseg ?m' t (m_next T) ((r @ [l]) @ [nd]) t nd"
      unfolding dseg_snoc using s2 neq by auto
    then have "cring ?m' (t # rest @ [nd])"
      using d nd snoc neq by (auto simp: cring_def)
    moreover have "\<forall>a. data_at ?m' a = data_at m a"
      using T N L by (auto simp: data_at_def)
    ultimately show ?thesis using run snoc by auto
  qed
qed

lemma Node_push_front_cring:
  assumes r: "cring m (t # rest)" and nd: "cells m nd \<noteq> None" "nd \<notin> set (t # rest)"
  shows "\<exists>m'. Node_push_front t nd m = Inr m' \<and> cring m' (t # nd # rest) \<and> brk m' = brk m
           \<and> (\<forall>a. a \<notin> {t, hd (rest @ [t]), nd} \<longrightarrow> cells m' a = cells m a)
           \<and> (\<forall>a. data_at m' a = data_at m a)"
proof -
  from r obtain T where T: "cells m t = Some T" "m_prev T = last (t # rest)"
    and seg: "dseg m t (m_next T) rest t (last (t # rest))" and d: "distinct (t # rest)"
    by (auto simp: cring_def split: option.splits)
  from nd obtain N where N: "cells m nd = Some N" by auto
  show ?thesis
  proof (cases rest)
    case Nil
    with T seg N nd d show ?thesis
      by (auto simp: Node_push_front_def store_def cring_def data_at_def)
  next
    case (Cons f r)
    with seg obtain F where F: "cells m f = Some F" "m_prev F = t" "m_next T = f"
      and seg': "dseg m f (m_next F) r t (last (t # rest))"
      by (auto split: option.splits)
    let ?m' = "m\<lparr>cells := (cells m)(nd \<mapsto> N\<lparr>m_next := f, m_prev := t\<rparr>, f \<mapsto> F\<lparr>m_prev := nd\<rparr>, t \<mapsto> T\<lparr>m_next := nd\<rparr>)\<rparr>"
    have neq: "f \<noteq> t" "nd \<noteq> t" "nd \<noteq> f" "t \<notin> set r" "f \<notin> set r" "nd \<notin> set r"
      using d nd Cons by auto
    have run: "Node_push_front t nd m = Inr ?m'"
      using T N F neq Cons by (simp add: Node_push_front_def store_def)
    have "dseg ?m' f (m_next F) r t (last (t # rest)) = dseg m f (m_next F) r t (last (t # rest))"
      by (rule dseg_frame) (use neq in auto)
    with seg' have s2: "dseg ?m' f (m_next F) r t (last (t # rest))" by simp
    have "cring ?m' (t # nd # rest)"
      using d nd Cons neq s2 T F by (auto simp: cring_def)
    moreover have "\<forall>a. data_at ?m' a = data_at m a"
      using T N F by (auto simp: data_at_def)
    ultimately show ?thesis using run Cons by auto
  qed
qed

lemma list_erase_cring:
  assumes r: "cring m (t # rest)"
  shows "\<exists>m'. list_erase this t m = Inr (hd (rest @ [t]), m') \<and> (rest \<noteq> [] \<longrightarrow> cring m' rest)
           \<and> cells m' t = None \<and> brk m' = brk m
           \<and> (\<forall>a. a \<notin> {t, hd (rest @ [t]), last (t # rest)} \<longrightarrow> cells m' a = cells m a)
           \<and> (\<forall>a. a \<noteq> t \<longrightarrow> data_at m' a = data_at m a)"
proof -
  from r obtain T where T: "cells m t = Some T" "m_prev T = last (t # rest)"
    and seg: "dseg m t (m_next T) rest t (last (t # rest))" and d: "distinct (t # rest)"
    by (auto simp: cring_def split: option.splits)
  show ?thesis
  proof (cases rest)
    case Nil
    with T seg show ?thesis
      by (auto simp: list_erase_def store_def destroy_deallocate_def data_at_def)
  next
    case (Cons f r0)
    with seg obtain F where F: "cells m f = Some F" "m_prev F = t" "m_next T = f"
      and seg1: "dseg m f (m_next F) r0 t (last (t # rest))"
      by (auto split: option.splits)
    show ?thesis
    proof (cases r0 rule: rev_cases)
      case Nil
      with Cons T F seg1 d show ?thesis
        by (auto simp: list_erase_def store_def destroy_deallocate_def data_at_def cring_def)
    next
      case (snoc r l)
      with seg1 Cons obtain L where L: "cells m l = Some L" "m_next L = t"
        and seg2: "dseg m f (m_next F) r l (m_prev L)"
        by (auto simp: dseg_snoc)
      have lst: "m_prev T = l" using T Cons snoc by simp
      let ?m' = "m\<lparr>cells := (cells m)(l \<mapsto> L\<lparr>m_next := f\<rparr>, f \<mapsto> F\<lparr>m_prev := l\<rparr>, t := None)\<rparr>"
      have neq: "f \<noteq> t" "l \<noteq> t" "l \<noteq> f" "t \<notin> set r" "f \<notin> set r" "l \<notin> set r"
        using d Cons snoc by auto
      have run: "list_erase this t m = Inr (f, ?m')"
        using T F L lst neq by (simp add: list_erase_def store_def destroy_deallocate_def)
      have "dseg ?m' f (m_next F) r l (m_prev L) = dseg m f (m_next F) r l (m_prev L)"
        by (rule dseg_frame) (use neq in auto)
      with seg2 have s2: "dseg ?m' f (m_next F) r l (m_prev L)" by simp
      have "dseg ?m' l f (f # r @ [l]) f l"
        using s2 neq by (auto simp: dseg_snoc)
      then have "cring ?m' rest"
        using d Cons snoc by (auto simp: cring_def)
      moreover have "\<forall>a. a \<noteq> t \<longrightarrow> data_at ?m' a = data_at m a"
        using L F by (auto simp: data_at_def)
      ultimately show ?thesis using run Cons snoc by auto
    qed
  qed
qed

subsection \<open>Traversals of a ring\<close>

lemma datas_cong: "(\<forall>a\<in>set as. data_at m' a = data_at m a) \<Longrightarrow> (\<forall>a\<in>set as. cells m a \<noteq> None) \<Longrightarrow> datas m' as = datas m as"
  by (induction as) (auto simp: datas_def data_at_def)

lemma collect_dseg:
  "dseg m pv p as q lst \<Longrightarrow> q \<notin> set as \<Longrightarrow> collect m p q acc = Some (Inr (acc @ datas m as))"
proof (induction as arbitrary: pv p acc)
  case Nil
  then show ?case by (simp add: collect.simps datas_def)
next
  case (Cons a as)
  from Cons.prems obtain n where n: "p = a" "cells m a = Some n" "dseg m a (m_next n) as q lst" "a \<noteq> q" "q \<notin> set as"
    by (auto split: option.splits)
  have "collect m p q acc = collect m (m_next n) q (acc @ [m_data n])"
    using n by (subst collect.simps) (simp add: iter_deref_def iter_incr_def)
  also have "\<dots> = Some (Inr ((acc @ [m_data n]) @ datas m as))"
    using Cons.IH[OF n(3) n(5)] .
  finally show ?case using n by (simp add: datas_def)
qed

lemma distance_dseg:
  "dseg m pv p as q lst \<Longrightarrow> q \<notin> set as \<Longrightarrow> distance m p q k = Some (Inr (k + length as))"
proof (induction as arbitrary: pv p k)
  case Nil
  then show ?case by (simp add: distance.simps)
next
  case (Cons a as)
  from Cons.prems obtain n where n: "p = a" "cells m a = Some n" "dseg m a (m_next n) as q lst" "a \<noteq> q" "q \<notin> set as"
    by (auto split: option.splits)
  have "distance m p q k = distance m (m_next n) q (Suc k)"
    using n by (subst distance.simps) (simp add: iter_incr_def)
  also have "\<dots> = Some (Inr (Suc k + length as))"
    using Cons.IH[OF n(3) n(5)] .
  finally show ?case by simp
qed

lemma follow_next_dseg:
  "dseg m pv p as q lst \<Longrightarrow> k \<le> length as \<Longrightarrow> follow_next m p k = Some ((as @ [q]) ! k)"
proof (induction as arbitrary: pv p k)
  case Nil
  then show ?case by simp
next
  case (Cons a as)
  show ?case
  proof (cases k)
    case 0
    with Cons.prems show ?thesis by simp
  next
    case (Suc j)
    with Cons.prems Cons.IH[of a _ j] show ?thesis by (auto split: option.splits)
  qed
qed

lemma ring_unfold:
  "ring m h as = (distinct (h # as) \<and> (\<exists>hn. cells m h = Some hn \<and> m_prev hn = last (h # as)
      \<and> dseg m h (m_next hn) as h (last (h # as))))"
  by (auto simp: ring_def cring_def split: option.splits)

lemma ring_elements:
  "ring m (m_head this) as \<Longrightarrow> list_elements this m = Some (Inr (datas m as))"
  unfolding ring_unfold
  by (auto simp: list_elements_def list_begin_def list_end_def dest: collect_dseg[where acc="[]"])

lemma ring_size:
  "ring m (m_head this) as \<Longrightarrow> list_size this m = Some (Inr (length as))"
  unfolding ring_unfold
  by (auto simp: list_size_def list_begin_def list_end_def dest: distance_dseg[where k=0])

lemma ring_follow:
  assumes "ring m h as" "k \<le> length as"
  shows "follow_next m h (Suc k) = Some ((as @ [h]) ! k)"
  using assms unfolding ring_unfold by (auto dest: follow_next_dseg)

lemma ring_closes:
  assumes "ring m h as"
  shows "follow_next m h (Suc (length as)) = Some h"
    and "\<forall>k<length as. follow_next m h (Suc k) \<noteq> Some h"
proof -
  show "follow_next m h (Suc (length as)) = Some h"
    using ring_follow[OF assms, of "length as"] by simp
  show "\<forall>k<length as. follow_next m h (Suc k) \<noteq> Some h"
  proof (intro allI impI)
    fix k assume k: "k < length as"
    then have "follow_next m h (Suc k) = Some (as ! k)"
      using ring_follow[OF assms, of k] by (simp add: nth_append)
    moreover have "as ! k \<noteq> h" using assms k unfolding ring_unfold by auto
    ultimately show "follow_next m h (Suc k) \<noteq> Some h" by simp
  qed
qed

lemma cring_links_hd: "cring m (a # c) \<Longrightarrow> links_ok m a"
proof -
  assume r: "cring m (a # c)"
  then obtain n where n: "cells m a = Some n" "m_prev n = last (a # c)"
    and seg: "dseg m a (m_next n) c a (last (a # c))" and d: "distinct (a # c)"
    by (auto simp: cring_def split: option.splits)
  show ?thesis
  proof (cases c rule: rev_cases)
    case Nil
    with n seg show ?thesis by (auto simp: links_ok_def)
  next
    case (snoc c' l)
    with seg obtain L where L: "cells m l = Some L" "m_next L = a" by (auto simp: dseg_snoc)
    from snoc n have pl: "m_prev n = l" by simp
    from seg snoc obtain F where "cells m (m_next n) = Some F" "m_prev F = a"
      by (cases c') (auto split: option.splits)
    with n L pl show ?thesis by (auto simp: links_ok_def)
  qed
qed

lemma cring_links: "cring m cyc \<Longrightarrow> a \<in> set cyc \<Longrightarrow> links_ok m a"
proof -
  assume r: "cring m cyc" and a: "a \<in> set cyc"
  then obtain xs ys where "cyc = xs @ a # ys" by (auto simp: in_set_conv_decomp)
  with r have "cring m ((a # ys) @ xs)" using cring_rotate[of m xs "a # ys"] by simp
  then show ?thesis using cring_links_hd[of m a "ys @ xs"] by simp
qed

subsection \<open>Allocation\<close>

lemma data_at_None: "data_at m a = None \<longleftrightarrow> cells m a = None"
  by (simp add: data_at_def)

lemma alloc_ok_step:
  "alloc_ok m \<Longrightarrow> brk m \<le> brk m' \<Longrightarrow>
   (\<forall>a. cells m' a \<noteq> None \<longrightarrow> cells m a \<noteq> None \<or> (brk m \<le> a \<and> a < brk m')) \<Longrightarrow> alloc_ok m'"
  unfolding alloc_ok_def by (auto intro: less_le_trans)

lemma cring_frame:
  "(\<forall>a\<in>set cyc. cells m' a = cells m a) \<Longrightarrow> cring m' cyc = cring m cyc"
  unfolding cring_def using dseg_frame[of cyc m' m] by auto

lemma alloc_ok_fresh: "alloc_ok m \<Longrightarrow> cells m (brk m) = None \<and> brk m \<noteq> nullptr"
  by (auto simp: alloc_ok_def)

lemma cring_fresh: "alloc_ok m \<Longrightarrow> cring m cyc \<Longrightarrow> brk m \<notin> set cyc"
  using alloc_ok_fresh cring_allocated by blast

lemma cring_nonnull: "alloc_ok m \<Longrightarrow> cring m cyc \<Longrightarrow> nullptr \<notin> set cyc"
  using cring_allocated[of m cyc nullptr] by (auto simp: alloc_ok_def)

lemma create_then_push_back:
  assumes ok: "alloc_ok m" and r: "cring m (t # rest)"
  shows "\<exists>m'. (case M_create_node d m of (node, m1) \<Rightarrow> Node_push_back t node m1) = Inr m'
           \<and> cring m' (t # rest @ [brk m]) \<and> alloc_ok m' \<and> brk m' = Suc (brk m)
           \<and> (\<forall>a. a \<notin> {t, last (t # rest), brk m} \<longrightarrow> cells m' a = cells m a)
           \<and> (\<forall>a. a \<noteq> brk m \<longrightarrow> data_at m' a = data_at m a)
           \<and> data_at m' (brk m) = Some d"
proof -
  let ?nd = "brk m"
  let ?m1 = "m\<lparr>cells := (cells m)(?nd \<mapsto> \<lparr>m_data = d, m_prev = ?nd, m_next = ?nd\<rparr>), brk := Suc ?nd\<rparr>"
  have fresh: "?nd \<notin> set (t # rest)" "cells m ?nd = None" using cring_fresh[OF ok r] alloc_ok_fresh[OF ok] by auto
  have "cring ?m1 (t # rest) = cring m (t # rest)"
    by (rule cring_frame) (use fresh in auto)
  with r have r1: "cring ?m1 (t # rest)" by simp
  have nd1: "cells ?m1 ?nd \<noteq> None" by simp
  from Node_push_back_cring[OF r1 nd1 fresh(1)] obtain m' where
    m': "Node_push_back t ?nd ?m1 = Inr m'" "cring m' (t # rest @ [?nd])" "brk m' = brk ?m1"
      "\<forall>a. a \<notin> {t, last (t # rest), ?nd} \<longrightarrow> cells m' a = cells ?m1 a"
      "\<forall>a. data_at m' a = data_at ?m1 a"
    by blast
  have d1: "\<forall>a. a \<noteq> ?nd \<longrightarrow> data_at m' a = data_at m a" "data_at m' ?nd = Some d"
    using m'(5) by (auto simp: data_at_def)
  have "alloc_ok m'"
  proof (rule alloc_ok_step[OF ok])
    have b: "brk m' = Suc (brk m)" using m'(3) by simp
    show "brk m \<le> brk m'" using b by simp
    show "\<forall>a. cells m' a \<noteq> None \<longrightarrow> cells m a \<noteq> None \<or> (brk m \<le> a \<and> a < brk m')"
    proof (intro allI impI)
      fix a assume "cells m' a \<noteq> None"
      then show "cells m a \<noteq> None \<or> (brk m \<le> a \<and> a < brk m')"
        using d1(1) b data_at_None[of m' a] data_at_None[of m a] by (cases "a = brk m") auto
    qed
  qed
  then show ?thesis using m' d1 by (auto simp: M_create_node_def)
qed

lemma create_then_push_front:
  assumes ok: "alloc_ok m" and r: "cring m (t # rest)"
  shows "\<exists>m'. (case M_create_node d m of (node, m1) \<Rightarrow> Node_push_front t node m1) = Inr m'
           \<and> cring m' (t # brk m # rest) \<and> alloc_ok m' \<and> brk m' = Suc (brk m)
           \<and> (\<forall>a. a \<notin> {t, hd (rest @ [t]), brk m} \<longrightarrow> cells m' a = cells m a)
           \<and> (\<forall>a. a \<noteq> brk m \<longrightarrow> data_at m' a = data_at m a)
           \<and> data_at m' (brk m) = Some d"
proof -
  let ?nd = "brk m"
  let ?m1 = "m\<lparr>cells := (cells m)(?nd \<mapsto> \<lparr>m_data = d, m_prev = ?nd, m_next = ?nd\<rparr>), brk := Suc ?nd\<rparr>"
  have fresh: "?nd \<notin> set (t # rest)" "cells m ?nd = None" using cring_fresh[OF ok r] alloc_ok_fresh[OF ok] by auto
  have "cring ?m1 (t # rest) = cring m (t # rest)"
    by (rule cring_frame) (use fresh in auto)
  with r have r1: "cring ?m1 (t # rest)" by simp
  have nd1: "cells ?m1 ?nd \<noteq> None" by simp
  from Node_push_front_cring[OF r1 nd1 fresh(1)] obtain m' where
    m': "Node_push_front t ?nd ?m1 = Inr m'" "cring m' (t # ?nd # rest)" "brk m' = brk ?m1"
      "\<forall>a. a \<notin> {t, hd (rest @ [t]), ?nd} \<longrightarrow> cells m' a = cells ?m1 a"
      "\<forall>a. data_at m' a = data_at ?m1 a"
    by blast
  have d1: "\<forall>a. a \<noteq> ?nd \<longrightarrow> data_at m' a = data_at m a" "data_at m' ?nd = Some d"
    using m'(5) by (auto simp: data_at_def)
  have "alloc_ok m'"
  proof (rule alloc_ok_step[OF ok])
    have b: "brk m' = Suc (brk m)" using m'(3) by simp
    show "brk m \<le> brk m'" using b by simp
    show "\<forall>a. cells m' a \<noteq> None \<longrightarrow> cells m a \<noteq> None \<or> (brk m \<le> a \<and> a < brk m')"
    proof (intro allI impI)
      fix a assume "cells m' a \<noteq> None"
      then show "cells m a \<noteq> None \<or> (brk m \<le> a \<and> a < brk m')"
        using d1(1) b data_at_None[of m' a] data_at_None[of m a] by (cases "a = brk m") auto
    qed
  qed
  then show ?thesis using m' d1 by (auto simp: M_create_node_def)
qed

lemma erase_alloc_ok:
  assumes ok: "alloc_ok m" and r: "cring m (t # rest)"
  shows "\<exists>m'. list_erase this t m = Inr (hd (rest @ [t]), m') \<and> (rest \<noteq> [] \<longrightarrow> cring m' rest)
           \<and> cells m' t = None \<and> brk m' = brk m \<and> alloc_ok m'
           \<and> (\<forall>a. a \<notin> {t, hd (rest @ [t]), last (t # rest)} \<longrightarrow> cells m' a = cells m a)
           \<and> (\<forall>a. a \<noteq> t \<longrightarrow> data_at m' a = data_at m a)"
proof -
  from list_erase_cring[OF r, of this] obtain m' where
    m': "list_erase this t m = Inr (hd (rest @ [t]), m')" "rest \<noteq> [] \<longrightarrow> cring m' rest"
      "cells m' t = None" "brk m' = brk m"
      "\<forall>a. a \<notin> {t, hd (rest @ [t]), last (t # rest)} \<longrightarrow> cells m' a = cells m a"
      "\<forall>a. a \<noteq> t \<longrightarrow> data_at m' a = data_at m a"
    by blast
  have "alloc_ok m'"
  proof (rule alloc_ok_step[OF ok])
    show "brk m \<le> brk m'" using m'(4) by simp
    show "\<forall>a. cells m' a \<noteq> None \<longrightarrow> cells m a \<noteq> None \<or> (brk m \<le> a \<and> a < brk m')"
    proof (intro allI impI)
      fix a assume "cells m' a \<noteq> None"
      then show "cells m a \<noteq> None \<or> (brk m \<le> a \<and> a < brk m')"
        using m'(3,6) data_at_None[of m' a] data_at_None[of m a] by (cases "a = t") auto
    qed
  qed
  with m' show ?thesis by blast
qed

subsection \<open>The operations of list on a ring\<close>

lemma ring_nonnull: "alloc_ok m \<Longrightarrow> ring m h as \<Longrightarrow> h \<noteq> nullptr"
  using cring_nonnull[of m "h # as"] by (auto simp: ring_def)

lemma list_ctor_ring:
  assumes ok: "alloc_ok m"
  shows "\<exists>m'. list_ctor m = (\<lparr>m_head = brk m\<rparr>, m') \<and> ring m' (brk m) [] \<and> alloc_ok m'
          \<and> brk m' = Suc (brk m) \<and> (\<forall>a. a \<noteq> brk m \<longrightarrow> cells m' a = cells m a)"
proof -
  let ?m' = "m\<lparr>cells := (cells m)(brk m \<mapsto> \<lparr>m_data = default, m_prev = brk m, m_next = brk m\<rparr>), brk := Suc (brk m)\<rparr>"
  have "alloc_ok ?m'" by (rule alloc_ok_step[OF ok]) auto
  then show ?thesis by (auto simp: list_ctor_def M_create_node_def ring_def cring_def)
qed

lemma list_push_back_ring:
  assumes ok: "alloc_ok m" and r: "ring m (m_head this) as"
  shows "\<exists>m'. list_push_back d this m = Inr m' \<and> ring m' (m_head this) (as @ [brk m])
           \<and> alloc_ok m' \<and> brk m' = Suc (brk m)
           \<and> (\<forall>a. a \<notin> set (m_head this # as) \<and> a \<noteq> brk m \<longrightarrow> cells m' a = cells m a)
           \<and> (\<forall>a. a \<noteq> brk m \<longrightarrow> data_at m' a = data_at m a)
           \<and> data_at m' (brk m) = Some d"
proof -
  have nn: "m_head this \<noteq> nullptr" using ring_nonnull[OF ok r] .
  from r have c: "cring m (m_head this # as)" by (simp add: ring_def)
  have l: "last (m_head this # as) \<in> set (m_head this # as)" by (rule last_in_set) simp
  from create_then_push_back[OF ok c, of d] l nn show ?thesis
    by (auto simp: list_push_back_def ring_def)
qed

lemma list_push_front_ring:
  assumes ok: "alloc_ok m" and r: "ring m (m_head this) as"
  shows "\<exists>m'. list_push_front d this m = Inr m' \<and> ring m' (m_head this) (brk m # as)
           \<and> alloc_ok m' \<and> brk m' = Suc (brk m)
           \<and> (\<forall>a. a \<notin> set (m_head this # as) \<and> a \<noteq> brk m \<longrightarrow> cells m' a = cells m a)
           \<and> (\<forall>a. a \<noteq> brk m \<longrightarrow> data_at m' a = data_at m a)
           \<and> data_at m' (brk m) = Some d"
proof -
  have nn: "m_head this \<noteq> nullptr" using ring_nonnull[OF ok r] .
  from r have c: "cring m (m_head this # as)" by (simp add: ring_def)
  have l: "hd (as @ [m_head this]) \<in> set (m_head this # as)" by (cases as) auto
  from create_then_push_front[OF ok c, of d] l nn show ?thesis
    by (auto simp: list_push_front_def ring_def)
qed

lemma list_insert_before_ring:
  assumes ok: "alloc_ok m" and r: "ring m h (xs @ p # ys)"
  shows "\<exists>m'. list_insert_before this p d m = Inr m' \<and> ring m' h (xs @ brk m # p # ys)
           \<and> alloc_ok m' \<and> brk m' = Suc (brk m)
           \<and> (\<forall>a. a \<notin> set (h # xs @ p # ys) \<and> a \<noteq> brk m \<longrightarrow> cells m' a = cells m a)
           \<and> (\<forall>a. a \<noteq> brk m \<longrightarrow> data_at m' a = data_at m a)
           \<and> data_at m' (brk m) = Some d"
proof -
  from r have "cring m ((h # xs) @ (p # ys))" by (simp add: ring_def)
  then have c: "cring m (p # (ys @ h # xs))" using cring_rotate[of m "h # xs" "p # ys"] by simp
  have l: "last (p # ys @ h # xs) \<in> set (h # xs @ p # ys)" using last_in_set[of "p # ys @ h # xs"] by auto
  from create_then_push_back[OF ok c, of d] obtain m' where
    m': "list_insert_before this p d m = Inr m'" "cring m' (p # (ys @ h # xs) @ [brk m])" "alloc_ok m'"
      "brk m' = Suc (brk m)"
      "\<forall>a. a \<notin> {p, last (p # ys @ h # xs), brk m} \<longrightarrow> cells m' a = cells m a"
      "\<forall>a. a \<noteq> brk m \<longrightarrow> data_at m' a = data_at m a" "data_at m' (brk m) = Some d"
    by (auto simp: list_insert_before_def)
  from m'(2) have "cring m' ((p # ys) @ (h # xs @ [brk m]))" by simp
  then have "cring m' ((h # xs @ [brk m]) @ (p # ys))" by (rule cring_rotate)
  then have "ring m' h (xs @ brk m # p # ys)" by (simp add: ring_def)
  with m' l show ?thesis by auto
qed

lemma list_insert_after_ring:
  assumes ok: "alloc_ok m" and r: "ring m h (xs @ p # ys)"
  shows "\<exists>m'. list_insert_after this p d m = Inr m' \<and> ring m' h (xs @ p # brk m # ys)
           \<and> alloc_ok m' \<and> brk m' = Suc (brk m)
           \<and> (\<forall>a. a \<notin> set (h # xs @ p # ys) \<and> a \<noteq> brk m \<longrightarrow> cells m' a = cells m a)
           \<and> (\<forall>a. a \<noteq> brk m \<longrightarrow> data_at m' a = data_at m a)
           \<and> data_at m' (brk m) = Some d"
proof -
  from r have "cring m ((h # xs) @ (p # ys))" by (simp add: ring_def)
  then have c: "cring m (p # (ys @ h # xs))" using cring_rotate[of m "h # xs" "p # ys"] by simp
  have l: "hd ((ys @ h # xs) @ [p]) \<in> set (h # xs @ p # ys)" by (cases ys) auto
  from create_then_push_front[OF ok c, of d] obtain m' where
    m': "list_insert_after this p d m = Inr m'" "cring m' (p # brk m # (ys @ h # xs))" "alloc_ok m'"
      "brk m' = Suc (brk m)"
      "\<forall>a. a \<notin> {p, hd ((ys @ h # xs) @ [p]), brk m} \<longrightarrow> cells m' a = cells m a"
      "\<forall>a. a \<noteq> brk m \<longrightarrow> data_at m' a = data_at m a" "data_at m' (brk m) = Some d"
    by (auto simp: list_insert_after_def)
  from m'(2) have "cring m' ((p # brk m # ys) @ (h # xs))" by simp
  then have "cring m' ((h # xs) @ (p # brk m # ys))" by (rule cring_rotate)
  then have "ring m' h (xs @ p # brk m # ys)" by (simp add: ring_def)
  with m' l show ?thesis by auto
qed

lemma list_erase_ring:
  assumes ok: "alloc_ok m" and r: "ring m h (xs @ p # ys)"
  shows "\<exists>m'. list_erase this p m = Inr (hd (ys @ [h]), m') \<and> ring m' h (xs @ ys)
           \<and> cells m' p = None \<and> alloc_ok m' \<and> brk m' = brk m
           \<and> (\<forall>a. a \<notin> set (h # xs @ p # ys) \<longrightarrow> cells m' a = cells m a)
           \<and> (\<forall>a. a \<noteq> p \<longrightarrow> data_at m' a = data_at m a)"
proof -
  from r have "cring m ((h # xs) @ (p # ys))" by (simp add: ring_def)
  then have c: "cring m (p # (ys @ h # xs))" using cring_rotate[of m "h # xs" "p # ys"] by simp
  have l: "hd ((ys @ h # xs) @ [p]) \<in> set (h # xs @ p # ys)" "last (p # ys @ h # xs) \<in> set (h # xs @ p # ys)"
     using last_in_set[of "p # ys @ h # xs"] by (cases ys; auto)+
  have hdeq: "hd ((ys @ h # xs) @ [p]) = hd (ys @ [h])" by (cases ys) auto
  from erase_alloc_ok[OF ok c, of this] obtain m' where
    m': "list_erase this p m = Inr (hd ((ys @ h # xs) @ [p]), m')" "cring m' (ys @ h # xs)"
      "cells m' p = None" "brk m' = brk m" "alloc_ok m'"
      "\<forall>a. a \<notin> {p, hd ((ys @ h # xs) @ [p]), last (p # ys @ h # xs)} \<longrightarrow> cells m' a = cells m a"
      "\<forall>a. a \<noteq> p \<longrightarrow> data_at m' a = data_at m a"
    by auto
  from m'(2) have "cring m' ((h # xs) @ ys)" by (rule cring_rotate)
  then have "ring m' h (xs @ ys)" by (simp add: ring_def)
  with m' l hdeq show ?thesis by auto
qed

lemma ring_head_cell:
  "ring m h as \<Longrightarrow> \<exists>hn. cells m h = Some hn \<and> m_next hn = hd (as @ [h]) \<and> m_prev hn = last (h # as)"
  unfolding ring_unfold by (auto dest: dseg_hd)

lemma list_pop_front_ring:
  assumes ok: "alloc_ok m" and r: "ring m (m_head this) (a # as)"
  shows "\<exists>m'. list_pop_front this m = Inr m' \<and> ring m' (m_head this) as
           \<and> cells m' a = None \<and> alloc_ok m' \<and> brk m' = brk m
           \<and> (\<forall>x. x \<notin> set (m_head this # a # as) \<longrightarrow> cells m' x = cells m x)
           \<and> (\<forall>x. x \<noteq> a \<longrightarrow> data_at m' x = data_at m x)"
  using ring_head_cell[OF r] list_erase_ring[OF ok, of "m_head this" "[]" a as this] r
  by (auto simp: list_pop_front_def)

lemma list_pop_back_ring:
  assumes ok: "alloc_ok m" and r: "ring m (m_head this) (as @ [a])"
  shows "\<exists>m'. list_pop_back this m = Inr m' \<and> ring m' (m_head this) as
           \<and> cells m' a = None \<and> alloc_ok m' \<and> brk m' = brk m
           \<and> (\<forall>x. x \<notin> set (m_head this # as @ [a]) \<longrightarrow> cells m' x = cells m x)
           \<and> (\<forall>x. x \<noteq> a \<longrightarrow> data_at m' x = data_at m x)"
  using ring_head_cell[OF r] list_erase_ring[OF ok, of "m_head this" as a "[]" this] r
  by (auto simp: list_pop_back_def)

subsection \<open>Evaluation on concrete stores\<close>

lemmas run_defs = empty_memory_def list_ctor_def list_ctor_values_def M_create_node_def
  list_push_back_def list_push_front_def Node_push_back_def Node_push_front_def store_def
  deref_def list_empty_def list_front_def list_back_def list_begin_def list_end_def
  list_size_def list_elements_def iter_incr_def iter_deref_def list_erase_def
  list_pop_front_def list_pop_back_def destroy_deallocate_def list_clear_def default_int_def

lemma alloc_ok_empty_memory: "alloc_ok empty_memory"
  by (simp add: alloc_ok_def empty_memory_def)

lemma clear_loop_nonnull: "m_head this \<noteq> nullptr \<Longrightarrow> clear_loop this m = Some (Inr m)"
  by (subst clear_loop.simps) (simp add: list_empty_nonnull)

subsection \<open>More on rings\<close>

lemma datas_append: "datas m (xs @ ys) = datas m xs @ datas m ys"
  by (simp add: datas_def)

lemma ring_allocated: "ring m h as \<Longrightarrow> a \<in> set (h # as) \<Longrightarrow> cells m a \<noteq> None"
  unfolding ring_def by (rule cring_allocated)

subsection \<open>The ring invariant in the words of the specification\<close>

lemma follow_next_add:
  "follow_next m p (j + k) = (case follow_next m p j of None \<Rightarrow> None | Some q \<Rightarrow> follow_next m q k)"
  by (induction j arbitrary: p) (auto split: option.splits)

lemma ring_follow_in:
  assumes r: "ring m h as"
  shows "\<exists>n\<in>set (h # as). follow_next m h k = Some n"
proof (induction k rule: less_induct)
  case (less k)
  show ?case
  proof (cases "k \<le> length as")
    case True
    show ?thesis
    proof (cases k)
      case 0
      then show ?thesis by simp
    next
      case (Suc j)
      with True have "follow_next m h k = Some ((as @ [h]) ! j)" "j < length (as @ [h])"
        using ring_follow[OF r, of j] by auto
      then show ?thesis by (metis nth_mem set_append list.set_intros(1,2) Un_iff set_ConsD empty_iff empty_set)
    qed
  next
    case False
    then obtain k' where k': "k = Suc (length as) + k'" "k' < k"
      by (metis add_Suc less_add_Suc1 less_imp_Suc_add not_less_eq_eq add.commute not_less)
    have "follow_next m h k = follow_next m h k'"
      using ring_closes(1)[OF r] unfolding k'(1) follow_next_add by simp
    with less.IH[OF k'(2)] show ?thesis by simp
  qed
qed

lemma ring_ring_props:
  assumes r: "ring m (m_head this) as"
  shows "ring_props this m"
proof -
  have "\<forall>k. case follow_next m (m_head this) k of None \<Rightarrow> False | Some n \<Rightarrow> links_ok m n"
  proof
    fix k
    from ring_follow_in[OF r, of k] obtain n where n: "n \<in> set (m_head this # as)"
      "follow_next m (m_head this) k = Some n" by blast
    from r n(1) have "links_ok m n" unfolding ring_def by (rule cring_links)
    with n show "case follow_next m (m_head this) k of None \<Rightarrow> False | Some n \<Rightarrow> links_ok m n" by simp
  qed
  moreover have "\<forall>k. 0 < k \<and> k \<le> length as \<longrightarrow> follow_next m (m_head this) k \<noteq> Some (m_head this)"
  proof (intro allI impI)
    fix k assume "0 < k \<and> k \<le> length as"
    then obtain j where "k = Suc j" "j < length as" by (cases k) auto
    with ring_closes(2)[OF r] show "follow_next m (m_head this) k \<noteq> Some (m_head this)" by simp
  qed
  ultimately show ?thesis
    unfolding ring_props_def using ring_size[OF r] ring_closes(1)[OF r] by auto
qed

subsection \<open>The copy constructor\<close>

lemma alloc_ok_less: "alloc_ok m \<Longrightarrow> cells m a \<noteq> None \<Longrightarrow> a < brk m \<and> a \<noteq> nullptr"
  by (auto simp: alloc_ok_def)

lemma clone_loop_ring:
  assumes ok: "alloc_ok m"
    and seg: "dseg m pv src rem ha lst" and hs: "ha \<notin> set rem"
    and tgt: "cring m (c # bs)" and dj: "set rem \<inter> set (c # bs) = {}"
  shows "\<exists>m' bs'. clone_loop c src ha m = Some (Inr m') \<and> cring m' (c # bs @ bs') \<and> alloc_ok m'
          \<and> datas m' bs' = datas m rem \<and> brk m \<le> brk m'
          \<and> (\<forall>a\<in>set bs'. brk m \<le> a)
          \<and> (\<forall>a. a \<notin> set (c # bs) \<and> a < brk m \<longrightarrow> cells m' a = cells m a)
          \<and> (\<forall>a. a < brk m \<longrightarrow> data_at m' a = data_at m a)"
  using assms
proof (induction rem arbitrary: m pv src bs)
  case Nil
  then have "clone_loop c src ha m = Some (Inr m)" by (subst clone_loop.simps) simp
  with Nil show ?case by (intro exI[of _ m] exI[of _ "[]"]) (simp add: datas_def)
next
  case (Cons a rem')
  from Cons.prems(2) obtain n where n: "src = a" "cells m a = Some n"
      "dseg m a (m_next n) rem' ha lst"
    by (auto split: option.splits)
  from Cons.prems(3) have ne: "a \<noteq> ha" "ha \<notin> set rem'" by auto
  note ok = Cons.prems(1)
  from create_then_push_back[OF ok Cons.prems(4), of "m_data n"] obtain m2 where
    m2: "(case M_create_node (m_data n) m of (node, m1) \<Rightarrow> Node_push_back c node m1) = Inr m2"
      "cring m2 (c # bs @ [brk m])" "alloc_ok m2" "brk m2 = Suc (brk m)"
      "\<forall>x. x \<notin> {c, last (c # bs), brk m} \<longrightarrow> cells m2 x = cells m x"
      "\<forall>x. x \<noteq> brk m \<longrightarrow> data_at m2 x = data_at m x"
      "data_at m2 (brk m) = Some (m_data n)"
    by blast
  have lastin: "last (c # bs) \<in> set (c # bs)" by (rule last_in_set) simp
  have old: "\<forall>x\<in>set (a # rem'). cells m x \<noteq> None"
    using dseg_allocated[OF Cons.prems(2)] by blast
  have fr: "\<forall>x\<in>set (a # rem'). cells m2 x = cells m x"
  proof
    fix x assume x: "x \<in> set (a # rem')"
    with old have "x \<noteq> brk m" using alloc_ok_less[OF ok, of x] by auto
    moreover from x Cons.prems(5) have "x \<notin> set (c # bs)" by auto
    ultimately show "cells m2 x = cells m x" using m2(5) lastin by auto
  qed
  have step: "clone_loop c src ha m = clone_loop c (m_next n) ha m2"
    using n ne m2(1) fr by (subst clone_loop.simps) (simp split: prod.splits)
  have seg2: "dseg m2 a (m_next n) rem' ha lst"
    using n(3) dseg_frame[of rem' m2 m] fr by simp
  have nb: "brk m \<notin> set (a # rem')"
    using old alloc_ok_less[OF ok, of "brk m"] by blast
  have dj2: "set rem' \<inter> set (c # (bs @ [brk m])) = {}"
    using Cons.prems(5) nb by auto
  from m2(2) have tgt2: "cring m2 (c # (bs @ [brk m]))" by simp
  from Cons.IH[OF m2(3) seg2 ne(2) tgt2 dj2] obtain m' bs'' where
    ih: "clone_loop c (m_next n) ha m2 = Some (Inr m')" "cring m' (c # (bs @ [brk m]) @ bs'')"
      "alloc_ok m'" "datas m' bs'' = datas m2 rem'" "brk m2 \<le> brk m'"
      "\<forall>x\<in>set bs''. brk m2 \<le> x"
      "\<forall>x. x \<notin> set (c # (bs @ [brk m])) \<and> x < brk m2 \<longrightarrow> cells m' x = cells m2 x"
      "\<forall>x. x < brk m2 \<longrightarrow> data_at m' x = data_at m2 x"
    by blast
  have "\<forall>x\<in>set rem'. data_at m2 x = data_at m x"
  proof
    fix x assume "x \<in> set rem'"
    with nb have "x \<noteq> brk m" by auto
    with m2(6) show "data_at m2 x = data_at m x" by blast
  qed
  moreover have "\<forall>x\<in>set rem'. cells m x \<noteq> None" using old by simp
  ultimately have d2: "datas m2 rem' = datas m rem'" by (rule datas_cong)
  have "data_at m' (brk m) = Some (m_data n)" using ih(8) m2(4,7) by simp
  then have hdd: "m_data (the (cells m' (brk m))) = m_data n"
    by (auto simp: data_at_def)
  have c1: "datas m' (brk m # bs'') = datas m (a # rem')"
    using hdd ih(4) d2 n(2) by (simp add: datas_def)
  have c2: "\<forall>x\<in>set (brk m # bs''). brk m \<le> x" using ih(6) m2(4) by auto
  have c3: "\<forall>x. x \<notin> set (c # bs) \<and> x < brk m \<longrightarrow> cells m' x = cells m x"
  proof (intro allI impI)
    fix x assume x: "x \<notin> set (c # bs) \<and> x < brk m"
    then have "cells m' x = cells m2 x" using ih(7) m2(4) by auto
    also have "\<dots> = cells m x" using x m2(5) lastin by auto
    finally show "cells m' x = cells m x" .
  qed
  have c4: "\<forall>x. x < brk m \<longrightarrow> data_at m' x = data_at m x"
    using ih(8) m2(4,6) by auto
  have c5: "cring m' (c # bs @ (brk m # bs''))" using ih(2) by simp
  have c6: "brk m \<le> brk m'" using ih(5) m2(4) by simp
  show ?case
    using step ih(1,3) c1 c2 c3 c4 c5 c6
    by (intro exI[of _ m'] exI[of _ "brk m # bs''"]) simp
qed

lemma ring_frame:
  "(\<forall>a\<in>set (h # as). cells m' a = cells m a) \<Longrightarrow> ring m' h as = ring m h as"
  unfolding ring_def by (rule cring_frame)

lemma datas_frame: "(\<forall>a\<in>set as. cells m' a = cells m a) \<Longrightarrow> datas m' as = datas m as"
  by (simp add: datas_def)

lemma ring_first_cell:
  assumes r: "ring m ha as"
  shows "\<exists>s lst. cells m (hd (as @ [ha])) = Some s \<and> m_prev s = ha
           \<and> dseg m ha (hd (as @ [ha])) as ha lst"
proof -
  from r obtain hn where hn: "cells m ha = Some hn" "m_prev hn = last (ha # as)"
      "dseg m ha (m_next hn) as ha (last (ha # as))"
    by (auto simp: ring_unfold)
  have eq: "m_next hn = hd (as @ [ha])" using dseg_hd[OF hn(3)] .
  show ?thesis
  proof (cases as)
    case Nil
    with hn eq show ?thesis by auto
  next
    case (Cons a as')
    with hn eq show ?thesis by (auto split: option.splits)
  qed
qed

lemma M_clone_ring:
  fixes m :: "('a::default) memory"
  assumes ok: "alloc_ok m" and r: "ring m ha as"
  shows "\<exists>m' bs. M_clone this (hd (as @ [ha])) m = Some (Inr (brk m, this, m'))
          \<and> ring m' (brk m) bs \<and> alloc_ok m' \<and> datas m' bs = datas m as
          \<and> (\<forall>a\<in>set bs. brk m < a) \<and> (\<forall>a. a < brk m \<longrightarrow> cells m' a = cells m a)"
proof -
  let ?src = "hd (as @ [ha])"
  let ?c = "brk m"
  let ?m1 = "m\<lparr>cells := (cells m)(?c \<mapsto> \<lparr>m_data = default, m_prev = ?c, m_next = ?c\<rparr>), brk := Suc ?c\<rparr>"
  from ring_first_cell[OF r] obtain s lst where s: "cells m ?src = Some s" "m_prev s = ha"
      "dseg m ha ?src as ha lst" by blast
  have srcn: "?src \<noteq> nullptr" "?src \<noteq> ?c" using alloc_ok_less[OF ok, of ?src] s(1) by auto
  have old: "\<forall>x\<in>set (ha # as). cells m x \<noteq> None" using ring_allocated[OF r] by blast
  have nb: "?c \<notin> set (ha # as)" using old alloc_ok_less[OF ok, of ?c] by blast
  have ok1: "alloc_ok ?m1" by (rule alloc_ok_step[OF ok]) auto
  have t1: "cring ?m1 (?c # [])" by (simp add: cring_def)
  have seg1: "dseg ?m1 ha ?src as ha lst"
    using s(3) dseg_frame[of as ?m1 m] nb by simp
  have hs: "ha \<notin> set as" using r by (simp add: ring_unfold)
  have dj: "set as \<inter> set (?c # []) = {}" using nb by auto
  from clone_loop_ring[OF ok1 seg1 hs t1 dj] obtain m' bs' where
    cl: "clone_loop ?c ?src ha ?m1 = Some (Inr m')" "cring m' (?c # [] @ bs')" "alloc_ok m'"
      "datas m' bs' = datas ?m1 as" "\<forall>a\<in>set bs'. brk ?m1 \<le> a"
      "\<forall>a. a \<notin> set (?c # []) \<and> a < brk ?m1 \<longrightarrow> cells m' a = cells ?m1 a"
    by blast
  have run: "M_clone this ?src m = Some (Inr (?c, this, m'))"
    using srcn s cl(1) by (simp add: M_clone_def M_create_node_def)
  have d: "datas ?m1 as = datas m as" by (rule datas_frame) (use nb in auto)
  have fr: "\<forall>a. a < brk m \<longrightarrow> cells m' a = cells m a" using cl(6) by auto
  have "\<forall>a\<in>set bs'. brk m < a" using cl(5) by auto
  with run cl(2,3,4) d fr show ?thesis by (auto simp: ring_def)
qed

lemma list_copy_ctor_ring:
  fixes m :: "('a::default) memory"
  assumes ok: "alloc_ok m" and r: "ring m (m_head outer) as"
  shows "\<exists>m' bs. list_copy_ctor uninit outer m = Some (Inr (\<lparr>m_head = brk m\<rparr>, m'))
          \<and> ring m' (brk m) bs \<and> alloc_ok m' \<and> datas m' bs = datas m as
          \<and> (\<forall>a\<in>set bs. brk m < a) \<and> (\<forall>a. a < brk m \<longrightarrow> cells m' a = cells m a)"
proof -
  from ring_head_cell[OF r] obtain hn where hn: "cells m (m_head outer) = Some hn"
      "m_next hn = hd (as @ [m_head outer])" by blast
  from M_clone_ring[OF ok r, of "\<lparr>m_head = uninit\<rparr>"] hn show ?thesis
    by (auto simp: list_copy_ctor_def)
qed

subsection \<open>Mutations of one list and the nodes of another\<close>

lemma iter_advance_follow:
  "follow_next m p k = Some q \<Longrightarrow> iter_advance k p m = Inr q"
  by (induction k arbitrary: p) (auto simp: iter_incr_def split: option.splits)

lemma mutate_dead:
  assumes "cells m (m_head l) = None" and "m_head l < brk m"
  shows "mutate x l m \<noteq> Inr m'"
  using assms
  by (cases x)
     (auto simp: list_push_back_def list_push_front_def list_pop_front_def list_pop_back_def
        list_begin_def M_create_node_def Node_push_back_def Node_push_front_def deref_def)

lemma erase_any_ring_node:
  assumes ok: "alloc_ok m" and r: "ring m h xs" and t: "t \<in> set (h # xs)"
  shows "\<exists>nx m'. list_erase this t m = Inr (nx, m') \<and> alloc_ok m' \<and> brk m' = brk m
          \<and> (\<forall>a. a \<notin> set (h # xs) \<longrightarrow> cells m' a = cells m a)
          \<and> ((\<exists>xs'. ring m' h xs' \<and> set xs' \<subseteq> set xs) \<or> cells m' h = None)"
proof (cases "t = h")
  case True
  from r have c: "cring m (t # xs)" using True by (simp add: ring_def)
  have "hd (xs @ [t]) \<in> set (t # xs)" by (cases xs) auto
  moreover have "last (t # xs) \<in> set (t # xs)" by (rule last_in_set) simp
  ultimately show ?thesis using erase_alloc_ok[OF ok c, of this] True by auto
next
  case False
  with t obtain pre post where xs: "xs = pre @ t # post" by (auto simp: in_set_conv_decomp)
  from list_erase_ring[OF ok, of h pre t post this] r xs obtain m' where
    m': "list_erase this t m = Inr (hd (post @ [h]), m')" "ring m' h (pre @ post)" "alloc_ok m'"
      "brk m' = brk m" "\<forall>a. a \<notin> set (h # pre @ t # post) \<longrightarrow> cells m' a = cells m a"
    by auto
  have "set (pre @ post) \<subseteq> set xs" using xs by auto
  with m' xs show ?thesis by blast
qed

lemma ring_advance_in:
  assumes r: "ring m h xs"
  shows "\<exists>t\<in>set (h # xs). bindE (list_begin \<lparr>m_head = h\<rparr> m) (\<lambda>b. iter_advance k b m) = Inr t"
proof -
  from ring_follow_in[OF r, of "Suc k"] obtain t where t: "t \<in> set (h # xs)"
      "follow_next m h (Suc k) = Some t" by blast
  from ring_head_cell[OF r] obtain hn where hn: "cells m h = Some hn" by blast
  with t(2) have "follow_next m (m_next hn) k = Some t" by simp
  then have "iter_advance k (m_next hn) m = Inr t" by (rule iter_advance_follow)
  with hn t(1) show ?thesis by (auto simp: list_begin_def)
qed

lemma mutate_step:
  assumes ok: "alloc_ok m" and r: "ring m (m_head l) xs" and run: "mutate x l m = Inr m'"
  shows "alloc_ok m' \<and> brk m \<le> brk m'
       \<and> (\<forall>a. a \<notin> set (m_head l # xs) \<and> a < brk m \<longrightarrow> cells m' a = cells m a)
       \<and> ((\<exists>xs'. ring m' (m_head l) xs' \<and> (\<forall>a\<in>set xs'. a \<in> set xs \<or> brk m \<le> a))
           \<or> cells m' (m_head l) = None)"
proof (cases x)
  case (Push_back d)
  from list_push_back_ring[OF ok r, of d] run Push_back show ?thesis
    by (auto intro!: exI[of _ "xs @ [brk m]"])
next
  case (Push_front d)
  from list_push_front_ring[OF ok r, of d] run Push_front show ?thesis
    by (auto intro!: exI[of _ "brk m # xs"])
next
  case Pop_front
  from ring_head_cell[OF r] obtain hn where hn: "cells m (m_head l) = Some hn"
      "m_next hn = hd (xs @ [m_head l])" by blast
  have "hd (xs @ [m_head l]) \<in> set (m_head l # xs)" by (cases xs) auto
  from erase_any_ring_node[OF ok r this, of l] run Pop_front hn show ?thesis
    by (auto simp: list_pop_front_def)
next
  case Pop_back
  from ring_head_cell[OF r] obtain hn where hn: "cells m (m_head l) = Some hn"
      "m_prev hn = last (m_head l # xs)" by blast
  have "last (m_head l # xs) \<in> set (m_head l # xs)" by (rule last_in_set) simp
  from erase_any_ring_node[OF ok r this, of l] run Pop_back hn show ?thesis
    by (auto simp: list_pop_back_def)
next
  case (Erase_at k)
  have l: "\<lparr>m_head = m_head l\<rparr> = l" by simp
  from ring_advance_in[OF r, of k] obtain t where t: "t \<in> set (m_head l # xs)"
      "bindE (list_begin l m) (\<lambda>b. iter_advance k b m) = Inr t" unfolding l by blast
  from t(2) obtain b where b: "list_begin l m = Inr b" "iter_advance k b m = Inr t"
    by (cases "list_begin l m") auto
  from erase_any_ring_node[OF ok r t(1), of l] run Erase_at b show ?thesis
    by auto
qed

lemma mutate_all_frame:
  assumes "mutate_all ops l m = Inr m'" and "alloc_ok m" and "m_head l < brk m"
    and "(\<exists>xs. ring m (m_head l) xs \<and> set xs \<inter> F = {}) \<or> cells m (m_head l) = None"
    and "\<forall>a\<in>F. a < brk m" and "m_head l \<notin> F"
  shows "\<forall>a\<in>F. cells m' a = cells m a"
  using assms
proof (induction ops arbitrary: m)
  case Nil
  then show ?case by simp
next
  case (Cons x ops)
  from Cons.prems(1) obtain m1 where m1: "mutate x l m = Inr m1" "mutate_all ops l m1 = Inr m'"
    by (cases "mutate x l m") auto
  from Cons.prems(4) mutate_dead[OF _ Cons.prems(3), of x m1] m1(1)
  obtain xs where xs: "ring m (m_head l) xs" "set xs \<inter> F = {}" by blast
  from mutate_step[OF Cons.prems(2) xs(1) m1(1)] have
    s: "alloc_ok m1" "brk m \<le> brk m1"
      "\<forall>a. a \<notin> set (m_head l # xs) \<and> a < brk m \<longrightarrow> cells m1 a = cells m a"
      "(\<exists>xs'. ring m1 (m_head l) xs' \<and> (\<forall>a\<in>set xs'. a \<in> set xs \<or> brk m \<le> a))
           \<or> cells m1 (m_head l) = None"
    by auto
  have f1: "\<forall>a\<in>F. cells m1 a = cells m a"
  proof
    fix a assume "a \<in> F"
    then have "a \<notin> set (m_head l # xs) \<and> a < brk m"
      using xs(2) Cons.prems(5,6) by auto
    with s(3) show "cells m1 a = cells m a" by blast
  qed
  have st: "(\<exists>xs'. ring m1 (m_head l) xs' \<and> set xs' \<inter> F = {}) \<or> cells m1 (m_head l) = None"
  proof (cases "cells m1 (m_head l) = None")
    case True
    then show ?thesis by simp
  next
    case False
    with s(4) obtain xs' where a: "ring m1 (m_head l) xs'" "\<forall>a\<in>set xs'. a \<in> set xs \<or> brk m \<le> a"
      by blast
    have "set xs' \<inter> F = {}"
    proof (rule ccontr)
      assume "set xs' \<inter> F \<noteq> {}"
      then obtain z where z: "z \<in> set xs'" "z \<in> F" by blast
      from z(1) a(2) have "z \<in> set xs \<or> brk m \<le> z" by blast
      moreover from z(2) xs(2) have "z \<notin> set xs" by blast
      moreover from z(2) Cons.prems(5) have "z < brk m" by blast
      ultimately show False by simp
    qed
    with a(1) show ?thesis by blast
  qed
  have "\<forall>a\<in>F. cells m' a = cells m1 a"
    using Cons.IH[OF m1(2) s(1) _ st _ Cons.prems(6)] s(2) Cons.prems(3,5) by fastforce
  with f1 show ?case by simp
qed

lemma bystander_elements:
  assumes r: "ring m (m_head y) ys" and f: "\<forall>a\<in>set (m_head y # ys). cells m' a = cells m a"
  shows "list_elements y m' = list_elements y m"
proof -
  have "ring m' (m_head y) ys" using r ring_frame[OF f] by simp
  then have "list_elements y m' = Some (Inr (datas m' ys))" by (rule ring_elements)
  moreover have "datas m' ys = datas m ys" by (rule datas_frame) (use f in auto)
  ultimately show ?thesis using ring_elements[OF r] by simp
qed

lemma mutate_all_bystander:
  assumes ok: "alloc_ok m" and rx: "ring m (m_head x) xs" and ry: "ring m (m_head y) ys"
    and dj: "set (m_head x # xs) \<inter> set (m_head y # ys) = {}"
    and run: "mutate_all ops x m = Inr m'"
  shows "list_elements y m' = list_elements y m"
proof -
  let ?F = "set (m_head y # ys)"
  have a1: "m_head x < brk m" using alloc_ok_less[OF ok] ring_allocated[OF rx, of "m_head x"] by simp
  have a2: "(\<exists>xs. ring m (m_head x) xs \<and> set xs \<inter> ?F = {}) \<or> cells m (m_head x) = None"
    using rx dj by (intro disjI1 exI[of _ xs]) auto
  have a3: "\<forall>a\<in>?F. a < brk m" using alloc_ok_less[OF ok] ring_allocated[OF ry] by blast
  have a4: "m_head x \<notin> ?F" using dj by auto
  from mutate_all_frame[OF run ok a1 a2 a3 a4] show ?thesis
    by (rule bystander_elements[OF ry])
qed

lemmas mutate_defs = list_copy_ctor_def M_clone_def clone_loop.simps

subsection \<open>The initializer-list constructor\<close>

lemma M_range_init_values_ring:
  assumes "alloc_ok m" and "ring m (m_head this) as"
  shows "\<exists>m' bs. M_range_init_values xs this m = Inr m' \<and> ring m' (m_head this) (as @ bs)
           \<and> alloc_ok m' \<and> datas m' (as @ bs) = datas m as @ xs
           \<and> (\<forall>a. a < brk m \<and> a \<notin> set (m_head this # as) \<longrightarrow> cells m' a = cells m a)"
  using assms
proof (induction xs arbitrary: m as)
  case Nil
  then show ?case by (intro exI[of _ m] exI[of _ "[]"]) simp
next
  case (Cons x xs)
  from Cons.prems(2) have c: "cring m (m_head this # as)" by (simp add: ring_def)
  from create_then_push_back[OF Cons.prems(1) c, of x] obtain m1 where
    m1: "(case M_create_node x m of (node, m1) \<Rightarrow> Node_push_back (m_head this) node m1) = Inr m1"
      "cring m1 (m_head this # as @ [brk m])" "alloc_ok m1" "brk m1 = Suc (brk m)"
      "\<forall>a. a \<notin> {m_head this, last (m_head this # as), brk m} \<longrightarrow> cells m1 a = cells m a"
      "\<forall>a. a \<noteq> brk m \<longrightarrow> data_at m1 a = data_at m a" "data_at m1 (brk m) = Some x"
    by blast
  have r1: "ring m1 (m_head this) (as @ [brk m])" using m1(2) by (simp add: ring_def)
  from Cons.IH[OF m1(3) r1] obtain m' bs where
    ih: "M_range_init_values xs this m1 = Inr m'" "ring m' (m_head this) ((as @ [brk m]) @ bs)"
      "alloc_ok m'" "datas m' ((as @ [brk m]) @ bs) = datas m1 (as @ [brk m]) @ xs"
      "\<forall>a. a < brk m1 \<and> a \<notin> set (m_head this # as @ [brk m]) \<longrightarrow> cells m' a = cells m1 a"
    by blast
  have run: "M_range_init_values (x # xs) this m = Inr m'"
    using m1(1) ih(1) by (simp split: prod.splits)
  have old: "\<forall>a\<in>set as. cells m a \<noteq> None" using ring_allocated[OF Cons.prems(2)] by auto
  have nb: "brk m \<notin> set (m_head this # as)" using cring_fresh[OF Cons.prems(1) c] .
  have "\<forall>a\<in>set as. data_at m1 a = data_at m a"
  proof
    fix a assume "a \<in> set as"
    with nb have "a \<noteq> brk m" by auto
    with m1(6) show "data_at m1 a = data_at m a" by blast
  qed
  then have d1: "datas m1 as = datas m as" using old by (rule datas_cong)
  have d2: "datas m1 [brk m] = [x]" using m1(7) by (auto simp: datas_def data_at_def)
  have d: "datas m' (as @ (brk m # bs)) = datas m as @ x # xs"
    using ih(4) d1 d2 by (simp add: datas_append)
  have lastin: "last (m_head this # as) \<in> set (m_head this # as)" by (rule last_in_set) simp
  have fr: "\<forall>a. a < brk m \<and> a \<notin> set (m_head this # as) \<longrightarrow> cells m' a = cells m a"
  proof (intro allI impI)
    fix a assume a: "a < brk m \<and> a \<notin> set (m_head this # as)"
    then have "cells m' a = cells m1 a" using ih(5) m1(4) by auto
    also have "\<dots> = cells m a" using a m1(5) lastin by auto
    finally show "cells m' a = cells m a" .
  qed
  from run ih(2,3) d fr show ?case
    by (intro exI[of _ m'] exI[of _ "brk m # bs"]) simp
qed

lemma list_ctor_values_ring:
  fixes m :: "('a::default) memory"
  assumes ok: "alloc_ok m"
  shows "\<exists>m' bs. list_ctor_values xs m = Inr (\<lparr>m_head = brk m\<rparr>, m') \<and> ring m' (brk m) bs
           \<and> alloc_ok m' \<and> list_elements \<lparr>m_head = brk m\<rparr> m' = Some (Inr xs)
           \<and> (\<forall>a. a < brk m \<longrightarrow> cells m' a = cells m a)"
proof -
  let ?l = "\<lparr>m_head = brk m\<rparr>"
  from list_ctor_ring[OF ok] obtain m0 where
    m0: "list_ctor m = (?l, m0)" "ring m0 (brk m) []" "alloc_ok m0" "brk m0 = Suc (brk m)"
      "\<forall>a. a \<noteq> brk m \<longrightarrow> cells m0 a = cells m a"
    by blast
  from M_range_init_values_ring[OF m0(3), of ?l "[]" xs] m0(2) obtain m' bs where
    m': "M_range_init_values xs ?l m0 = Inr m'" "ring m' (brk m) bs" "alloc_ok m'"
      "datas m' bs = xs"
      "\<forall>a. a < brk m0 \<and> a \<notin> set [brk m] \<longrightarrow> cells m' a = cells m0 a"
    by (auto simp: datas_def)
  have "list_elements ?l m' = Some (Inr xs)" using ring_elements[of m' ?l bs] m'(2,4) by simp
  moreover have "\<forall>a. a < brk m \<longrightarrow> cells m' a = cells m a" using m'(5) m0(4,5) by auto
  ultimately show ?thesis using m0(1) m' by (auto simp: list_ctor_values_def)
qed

subsection \<open>Copy assignment\<close>

lemma M_copy_assign_false_null_deref:
  assumes ok: "alloc_ok m" and a: "cells m (m_head this) \<noteq> None"
    and b: "cells m (m_head outer) \<noteq> None" and ne: "m_head outer \<noteq> m_head this"
  shows "M_copy_assign False this outer m = Some (Inl Null_deref)"
proof -
  from ok a have nn: "m_head this \<noteq> nullptr" and z: "cells m nullptr = None"
    by (auto simp: alloc_ok_def)
  from a obtain hn where hn: "cells m (m_head this) = Some hn" by auto
  from b obtain on where on: "cells m (m_head outer) = Some on" by auto
  let ?m' = "m\<lparr>cells := (cells m)(m_head this := None)\<rparr>"
  let ?this' = "this\<lparr>m_head := nullptr\<rparr>"
  have cl: "list_clear this m = Some (Inr (?this', ?m'))"
    using hn by (simp add: list_clear_def clear_loop_nonnull[OF nn] destroy_deallocate_def)
  have z': "cells ?m' nullptr = None" using z by simp
  have e: "list_empty ?this' ?m' = Inl Null_deref" using z' by (simp add: list_empty_def)
  have cl2: "clear_loop ?this' ?m' = Some (Inl Null_deref)"
    by (subst clear_loop.simps) (simp add: e)
  have "M_assign ?this' first lst ?m' = Some (Inl Null_deref)" for first lst
    by (simp add: M_assign_def e list_clear_def cl2)
  then show ?thesis using cl on ne by (simp add: M_copy_assign_def list_begin_def)
qed

subsection \<open>The move constructor\<close>

lemma list_move_ctor_ring:
  fixes m :: "('a::default) memory"
  assumes ok: "alloc_ok m" and r: "ring m (m_head outer) as"
  shows "\<exists>m'. list_move_ctor outer m = (\<lparr>m_head = m_head outer\<rparr>, outer\<lparr>m_head := brk m\<rparr>, m')
          \<and> alloc_ok m' \<and> ring m' (m_head outer) as \<and> ring m' (brk m) []
          \<and> datas m' as = datas m as"
proof -
  from list_ctor_ring[OF ok] obtain m' where
    m': "list_ctor m = (\<lparr>m_head = brk m\<rparr>, m')" "ring m' (brk m) []" "alloc_ok m'"
      "\<forall>a. a \<noteq> brk m \<longrightarrow> cells m' a = cells m a"
    by blast
  have nb: "brk m \<notin> set (m_head outer # as)"
    using cring_fresh[OF ok, of "m_head outer # as"] r unfolding ring_def by blast
  have fr: "\<forall>a\<in>set (m_head outer # as). cells m' a = cells m a"
  proof
    fix a assume "a \<in> set (m_head outer # as)"
    with nb have "a \<noteq> brk m" by auto
    with m'(4) show "cells m' a = cells m a" by blast
  qed
  have "ring m' (m_head outer) as" using r ring_frame[OF fr] by simp
  moreover have "datas m' as = datas m as" by (rule datas_frame) (use fr in auto)
  moreover have "list_move_ctor outer m = (\<lparr>m_head = m_head outer\<rparr>, outer\<lparr>m_head := brk m\<rparr>, m')"
    using m'(1) by (auto simp: list_move_ctor_def list_ctor_def split: prod.splits)
  ultimately show ?thesis using m'(2,3) by blast
qed

subsection \<open>Insertion at a node of a cycle\<close>

lemma cring_next:
  "cring m (a # c) \<Longrightarrow> \<exists>n. cells m a = Some n \<and> m_next n = hd (c @ [a]) \<and> m_prev n = last (a # c)"
  using ring_head_cell[of m a c] by (simp add: ring_def)

lemma insert_before_cring:
  assumes ok: "alloc_ok m" and r: "cring m (p # rest)"
  shows "\<exists>m'. list_insert_before this p d m = Inr m' \<and> cring m' (p # rest @ [brk m])
           \<and> alloc_ok m' \<and> brk m' = Suc (brk m)
           \<and> (\<forall>a. a \<notin> set (p # rest) \<and> a \<noteq> brk m \<longrightarrow> cells m' a = cells m a)"
proof -
  have l: "last (p # rest) \<in> set (p # rest)" by (rule last_in_set) simp
  from create_then_push_back[OF ok r, of d] l show ?thesis
    by (auto simp: list_insert_before_def)
qed

lemma insert_after_cring:
  assumes ok: "alloc_ok m" and r: "cring m (p # rest)"
  shows "\<exists>m'. list_insert_after this p d m = Inr m' \<and> cring m' (p # brk m # rest)
           \<and> alloc_ok m' \<and> brk m' = Suc (brk m)
           \<and> (\<forall>a. a \<notin> set (p # rest) \<and> a \<noteq> brk m \<longrightarrow> cells m' a = cells m a)"
proof -
  have l: "hd (rest @ [p]) \<in> set (p # rest)" by (cases rest) auto
  from create_then_push_front[OF ok r, of d] l show ?thesis
    by (auto simp: list_insert_after_def)
qed

lemma insert_before_values_cring:
  assumes "alloc_ok m" and "cring m (p # rest)"
  shows "\<exists>m' news. insert_before_values this p xs m = Inr m' \<and> cring m' (p # rest @ news)
           \<and> alloc_ok m' \<and> length news = length xs"
  using assms
proof (induction xs arbitrary: m rest)
  case Nil
  then show ?case by (intro exI[of _ m] exI[of _ "[]"]) simp
next
  case (Cons x xs)
  from insert_before_cring[OF Cons.prems, of this x] obtain m1 where
    m1: "list_insert_before this p x m = Inr m1" "cring m1 (p # rest @ [brk m])" "alloc_ok m1"
    by blast
  from Cons.IH[OF m1(3), of "rest @ [brk m]"] m1(2) obtain m' news where
    ih: "insert_before_values this p xs m1 = Inr m'" "cring m' (p # (rest @ [brk m]) @ news)"
      "alloc_ok m'" "length news = length xs"
    by auto
  show ?case using m1(1) ih
    by (intro exI[of _ m'] exI[of _ "brk m # news"]) simp
qed

lemma insert_before_count_cring:
  assumes "alloc_ok m" and "cring m (p # rest)"
  shows "\<exists>m' news. insert_before_count fw this p k d m = Inr m' \<and> cring m' (p # rest @ news)
           \<and> alloc_ok m' \<and> length news = k"
  using assms
proof (induction k arbitrary: m rest d)
  case 0
  then show ?case by (intro exI[of _ m] exI[of _ "[]"]) simp
next
  case (Suc k)
  obtain v d' where f: "fw d = (v, d')" by (cases "fw d")
  from insert_before_cring[OF Suc.prems, of this v] obtain m1 where
    m1: "list_insert_before this p v m = Inr m1" "cring m1 (p # rest @ [brk m])" "alloc_ok m1"
    by blast
  from Suc.IH[OF m1(3), of "rest @ [brk m]" d'] m1(2) obtain m' news where
    ih: "insert_before_count fw this p k d' m1 = Inr m'" "cring m' (p # (rest @ [brk m]) @ news)"
      "alloc_ok m'" "length news = k"
    by auto
  show ?case using m1(1) ih f
    by (intro exI[of _ m'] exI[of _ "brk m # news"]) simp
qed

lemma insert_after_count_cring:
  assumes "alloc_ok m" and "cring m (p # rest)"
  shows "\<exists>m' news. insert_after_count fw this p k d m = Inr m' \<and> cring m' (p # news @ rest)
           \<and> alloc_ok m' \<and> length news = k"
  using assms
proof (induction k arbitrary: m rest d)
  case 0
  then show ?case by (intro exI[of _ m] exI[of _ "[]"]) simp
next
  case (Suc k)
  obtain v d' where f: "fw d = (v, d')" by (cases "fw d")
  from insert_after_cring[OF Suc.prems, of this v] obtain m1 where
    m1: "list_insert_after this p v m = Inr m1" "cring m1 (p # brk m # rest)" "alloc_ok m1"
    by blast
  from Suc.IH[OF m1(3), of "brk m # rest" d'] m1(2) obtain m' news where
    ih: "insert_after_count fw this p k d' m1 = Inr m'" "cring m' (p # news @ brk m # rest)"
      "alloc_ok m'" "length news = k"
    by auto
  show ?case using m1(1) ih f
    by (intro exI[of _ m'] exI[of _ "news @ [brk m]"]) simp
qed

lemma insert_after_values_cring:
  assumes "alloc_ok m" and "cring m (p # rest)"
  shows "\<exists>m' news. insert_after_values this p xs m = Inr m' \<and> cring m' (p # news @ rest)
           \<and> alloc_ok m' \<and> length news = length xs"
  using assms
proof (induction xs arbitrary: m p rest)
  case Nil
  then show ?case by (intro exI[of _ m] exI[of _ "[]"]) simp
next
  case (Cons x xs)
  from insert_after_cring[OF Cons.prems, of this x] obtain m1 where
    m1: "list_insert_after this p x m = Inr m1" "cring m1 (p # brk m # rest)" "alloc_ok m1"
    by blast
  from cring_next[OF m1(2)] have nx: "iter_incr p m1 = Inr (brk m)"
    by (auto simp: iter_incr_def)
  from m1(2) have "cring m1 ([p] @ (brk m # rest))" by simp
  then have rot: "cring m1 (brk m # (rest @ [p]))" using cring_rotate[of m1 "[p]" "brk m # rest"] by simp
  from Cons.IH[OF m1(3) rot] obtain m' news where
    ih: "insert_after_values this (brk m) xs m1 = Inr m'" "cring m' (brk m # news @ rest @ [p])"
      "alloc_ok m'" "length news = length xs"
    by auto
  from ih(2) have "cring m' ((brk m # news @ rest) @ [p])" by simp
  then have "cring m' ([p] @ (brk m # news @ rest))" by (rule cring_rotate)
  then have c: "cring m' (p # (brk m # news) @ rest)" by simp
  show ?case using m1(1) nx ih c
    by (intro exI[of _ m'] exI[of _ "brk m # news"]) simp
qed

subsection \<open>Ranges of another list, and range erase\<close>

lemma source_frame:
  assumes ok: "alloc_ok m" and seg: "dseg m pv first rem lst l"
    and dj: "set rem \<inter> C = {}"
    and fr: "\<forall>a. a \<notin> C \<and> a \<noteq> brk m \<longrightarrow> cells m1 a = cells m a"
  shows "\<forall>a\<in>set rem. cells m1 a = cells m a" and "brk m \<notin> set rem"
proof -
  have old: "\<forall>x\<in>set rem. cells m x \<noteq> None" using dseg_allocated[OF seg] by blast
  show nb: "brk m \<notin> set rem" using old alloc_ok_less[OF ok, of "brk m"] by blast
  show "\<forall>a\<in>set rem. cells m1 a = cells m a"
  proof
    fix a assume a: "a \<in> set rem"
    with nb have "a \<noteq> brk m" by auto
    moreover from a dj have "a \<notin> C" by auto
    ultimately show "cells m1 a = cells m a" using fr by blast
  qed
qed

lemma insert_before_range_cring:
  assumes "alloc_ok m" and "dseg m pv first rem lst l" and "lst \<notin> set rem"
    and "cring m (p # rest)" and "set rem \<inter> set (p # rest) = {}"
  shows "\<exists>m' news. insert_before_range this p first lst m = Some (Inr m')
           \<and> cring m' (p # rest @ news) \<and> alloc_ok m' \<and> length news = length rem"
  using assms
proof (induction rem arbitrary: m pv first rest)
  case Nil
  then have "insert_before_range this p first lst m = Some (Inr m)"
    by (subst insert_before_range.simps) simp
  with Nil show ?case by (intro exI[of _ m] exI[of _ "[]"]) simp
next
  case (Cons a rem')
  from Cons.prems(2) obtain n where n: "first = a" "cells m a = Some n"
      "dseg m a (m_next n) rem' lst l"
    by (auto split: option.splits)
  from Cons.prems(3) have ne: "a \<noteq> lst" "lst \<notin> set rem'" by auto
  from insert_before_cring[OF Cons.prems(1,4), of this "m_data n"] obtain m1 where
    m1: "list_insert_before this p (m_data n) m = Inr m1" "cring m1 (p # rest @ [brk m])"
      "alloc_ok m1"
      "\<forall>x. x \<notin> set (p # rest) \<and> x \<noteq> brk m \<longrightarrow> cells m1 x = cells m x"
    by blast
  note sf = source_frame[OF Cons.prems(1,2,5) m1(4)]
  have step: "insert_before_range this p first lst m = insert_before_range this p (m_next n) lst m1"
    using n ne m1(1) by (subst insert_before_range.simps) (simp add: iter_incr_def iter_deref_def)
  have seg1: "dseg m1 a (m_next n) rem' lst l"
    using n(3) dseg_frame[of rem' m1 m] sf(1) by simp
  have dj1: "set rem' \<inter> set (p # (rest @ [brk m])) = {}"
    using Cons.prems(5) sf(2) by auto
  from m1(2) have c1: "cring m1 (p # (rest @ [brk m]))" by simp
  from Cons.IH[OF m1(3) seg1 ne(2) c1 dj1] obtain m' news where
    ih: "insert_before_range this p (m_next n) lst m1 = Some (Inr m')"
      "cring m' (p # (rest @ [brk m]) @ news)" "alloc_ok m'" "length news = length rem'"
    by blast
  show ?case using step ih
    by (intro exI[of _ m'] exI[of _ "brk m # news"]) simp
qed

lemma M_range_init_cring:
  assumes "alloc_ok m" and "dseg m pv first rem lst l" and "lst \<notin> set rem"
    and "cring m (m_head this # rest)" and "set rem \<inter> set (m_head this # rest) = {}"
  shows "\<exists>m' news. M_range_init this first lst m = Some (Inr m')
           \<and> cring m' (m_head this # rest @ news) \<and> alloc_ok m' \<and> length news = length rem
           \<and> datas m' news = datas m rem
           \<and> (\<forall>a. a < brk m \<and> a \<notin> set (m_head this # rest) \<longrightarrow> cells m' a = cells m a)
           \<and> (\<forall>a. a < brk m \<longrightarrow> data_at m' a = data_at m a)"
  using assms
proof (induction rem arbitrary: m pv first rest)
  case Nil
  then have "M_range_init this first lst m = Some (Inr m)"
    by (subst M_range_init.simps) simp
  with Nil show ?case by (intro exI[of _ m] exI[of _ "[]"]) (simp add: datas_def)
next
  case (Cons a rem')
  let ?h = "m_head this"
  from Cons.prems(2) obtain n where n: "first = a" "cells m a = Some n"
      "dseg m a (m_next n) rem' lst l"
    by (auto split: option.splits)
  from Cons.prems(3) have ne: "a \<noteq> lst" "lst \<notin> set rem'" by auto
  note ok = Cons.prems(1)
  from create_then_push_back[OF ok Cons.prems(4), of "m_data n"] obtain m1 where
    m1: "(case M_create_node (m_data n) m of (node, m1) \<Rightarrow> Node_push_back ?h node m1) = Inr m1"
      "cring m1 (?h # rest @ [brk m])" "alloc_ok m1" "brk m1 = Suc (brk m)"
      "\<forall>x. x \<notin> {?h, last (?h # rest), brk m} \<longrightarrow> cells m1 x = cells m x"
      "\<forall>x. x \<noteq> brk m \<longrightarrow> data_at m1 x = data_at m x"
      "data_at m1 (brk m) = Some (m_data n)"
    by blast
  have lastin: "last (?h # rest) \<in> set (?h # rest)" by (rule last_in_set) simp
  have fr0: "\<forall>x. x \<notin> set (?h # rest) \<and> x \<noteq> brk m \<longrightarrow> cells m1 x = cells m x"
    using m1(5) lastin by auto
  note sf = source_frame[OF ok Cons.prems(2,5) fr0]
  have step: "M_range_init this first lst m = M_range_init this (m_next n) lst m1"
    using n ne m1(1) sf(1)
    by (subst M_range_init.simps) (simp add: iter_incr_def iter_deref_def split: prod.splits)
  have seg1: "dseg m1 a (m_next n) rem' lst l"
    using n(3) dseg_frame[of rem' m1 m] sf(1) by simp
  have dj1: "set rem' \<inter> set (?h # (rest @ [brk m])) = {}"
    using Cons.prems(5) sf(2) by auto
  from m1(2) have c1: "cring m1 (?h # (rest @ [brk m]))" by simp
  from Cons.IH[OF m1(3) seg1 ne(2) c1 dj1] obtain m' news where
    ih: "M_range_init this (m_next n) lst m1 = Some (Inr m')"
      "cring m' (?h # (rest @ [brk m]) @ news)" "alloc_ok m'" "length news = length rem'"
      "datas m' news = datas m1 rem'"
      "\<forall>x. x < brk m1 \<and> x \<notin> set (?h # (rest @ [brk m])) \<longrightarrow> cells m' x = cells m1 x"
      "\<forall>x. x < brk m1 \<longrightarrow> data_at m' x = data_at m1 x"
    by blast
  have d2: "datas m1 rem' = datas m rem'" by (rule datas_frame) (use sf(1) in auto)
  have "data_at m' (brk m) = Some (m_data n)" using ih(7) m1(4,7) by simp
  then have hdd: "m_data (the (cells m' (brk m))) = m_data n" by (auto simp: data_at_def)
  have c1: "datas m' (brk m # news) = datas m (a # rem')"
    using hdd ih(5) d2 n(2) by (simp add: datas_def)
  have c3: "\<forall>x. x < brk m \<and> x \<notin> set (?h # rest) \<longrightarrow> cells m' x = cells m x"
  proof (intro allI impI)
    fix x assume x: "x < brk m \<and> x \<notin> set (?h # rest)"
    then have "cells m' x = cells m1 x" using ih(6) m1(4) by auto
    also have "\<dots> = cells m x" using x fr0 by auto
    finally show "cells m' x = cells m x" .
  qed
  have c4: "\<forall>x. x < brk m \<longrightarrow> data_at m' x = data_at m x"
    using ih(7) m1(4,6) by auto
  show ?case using step ih(1,2,3,4) c1 c3 c4
    by (intro exI[of _ m'] exI[of _ "brk m # news"]) simp
qed

lemma insert_after_range_cring:
  assumes "alloc_ok m" and "dseg m pv first rem lst l" and "lst \<notin> set rem"
    and "cring m (p # rest)" and "set rem \<inter> set (p # rest) = {}"
  shows "\<exists>m' news. insert_after_range this p first lst m = Some (Inr m')
           \<and> cring m' (p # news @ rest) \<and> alloc_ok m' \<and> length news = length rem"
  using assms
proof (induction rem arbitrary: m pv first p rest)
  case Nil
  then have "insert_after_range this p first lst m = Some (Inr m)"
    by (subst insert_after_range.simps) simp
  with Nil show ?case by (intro exI[of _ m] exI[of _ "[]"]) simp
next
  case (Cons a rem')
  from Cons.prems(2) obtain n where n: "first = a" "cells m a = Some n"
      "dseg m a (m_next n) rem' lst l"
    by (auto split: option.splits)
  from Cons.prems(3) have ne: "a \<noteq> lst" "lst \<notin> set rem'" by auto
  from insert_after_cring[OF Cons.prems(1,4), of this "m_data n"] obtain m1 where
    m1: "list_insert_after this p (m_data n) m = Inr m1" "cring m1 (p # brk m # rest)"
      "alloc_ok m1"
      "\<forall>x. x \<notin> set (p # rest) \<and> x \<noteq> brk m \<longrightarrow> cells m1 x = cells m x"
    by blast
  note sf = source_frame[OF Cons.prems(1,2,5) m1(4)]
  from cring_next[OF m1(2)] have nx: "iter_incr p m1 = Inr (brk m)"
    by (auto simp: iter_incr_def)
  have a1: "cells m1 a = Some n" using sf(1) n(2) by simp
  have step: "insert_after_range this p first lst m
      = insert_after_range this (brk m) (m_next n) lst m1"
    using n ne m1(1) nx a1
    by (subst insert_after_range.simps) (simp add: iter_incr_def iter_deref_def)
  have seg1: "dseg m1 a (m_next n) rem' lst l"
    using n(3) dseg_frame[of rem' m1 m] sf(1) by simp
  from m1(2) have "cring m1 ([p] @ (brk m # rest))" by simp
  then have rot: "cring m1 (brk m # (rest @ [p]))"
    using cring_rotate[of m1 "[p]" "brk m # rest"] by simp
  have dj1: "set rem' \<inter> set (brk m # (rest @ [p])) = {}"
    using Cons.prems(5) sf(2) by auto
  from Cons.IH[OF m1(3) seg1 ne(2) rot dj1] obtain m' news where
    ih: "insert_after_range this (brk m) (m_next n) lst m1 = Some (Inr m')"
      "cring m' (brk m # news @ rest @ [p])" "alloc_ok m'" "length news = length rem'"
    by auto
  from ih(2) have "cring m' ((brk m # news @ rest) @ [p])" by simp
  then have "cring m' ([p] @ (brk m # news @ rest))" by (rule cring_rotate)
  then have c: "cring m' (p # (brk m # news) @ rest)" by simp
  show ?case using step ih c
    by (intro exI[of _ m'] exI[of _ "brk m # news"]) simp
qed

lemma erase_range_cring:
  assumes "alloc_ok m" and "cring m (seg @ c)" and "c \<noteq> []"
  shows "\<exists>m'. erase_range this (hd (seg @ c)) (hd c) m = Some (Inr (hd c, m'))
           \<and> cring m' c \<and> alloc_ok m'"
  using assms
proof (induction seg arbitrary: m)
  case Nil
  then have "erase_range this (hd c) (hd c) m = Some (Inr (hd c, m))"
    by (subst erase_range.simps) simp
  with Nil show ?case by simp
next
  case (Cons a seg')
  from Cons.prems(2) have r: "cring m (a # (seg' @ c))" by simp
  then have d: "distinct (a # seg' @ c)" by (simp add: cring_def)
  have hc: "hd c \<in> set c" using Cons.prems(3) by simp
  with d have ne: "a \<noteq> hd c" by auto
  have nonempty: "seg' @ c \<noteq> []" using Cons.prems(3) by simp
  from cring_next[OF r] have nx: "iter_incr a m = Inr (hd (seg' @ c))"
    using nonempty by (auto simp: iter_incr_def hd_append)
  from erase_alloc_ok[OF Cons.prems(1) r, of this] nonempty obtain nxt m1 where
    m1: "list_erase this a m = Inr (nxt, m1)" "cring m1 (seg' @ c)" "alloc_ok m1"
    by auto
  have step: "erase_range this (hd ((a # seg') @ c)) (hd c) m
      = erase_range this (hd (seg' @ c)) (hd c) m1"
    using ne nx m1(1) by (subst erase_range.simps) simp
  from Cons.IH[OF m1(3,2) Cons.prems(3)] step show ?case by simp
qed

subsection \<open>Insertion at any node of a ring, the sentinel included\<close>

lemma put_before_end: "p \<notin> set as \<Longrightarrow> put_before p news as = as @ news"
  by (induction as) auto

lemma put_before_mid: "p \<notin> set xs \<Longrightarrow> put_before p news (xs @ p # ys) = xs @ news @ p # ys"
  by (induction xs) auto

lemma put_after_mid: "p \<notin> set xs \<Longrightarrow> put_after p news (xs @ p # ys) = xs @ p # news @ ys"
  by (induction xs) auto

lemma length_put_before: "length (put_before p news as) = length as + length news"
  by (induction as) auto

lemma length_put_after:
  "p \<in> set cyc \<Longrightarrow> length (put_after p news cyc) = length cyc + length news"
  by (induction cyc) auto

lemma ring_keptI: "alloc_ok m \<Longrightarrow> ring m (m_head this) as \<Longrightarrow> ring_kept this m as"
  by (simp add: ring_kept_def ring_ring_props)

lemma ring_kept_from:
  fixes f :: "'a memory \<Rightarrow> 'r"
  assumes "\<exists>m' news. r = f m' \<and> cring m' (c news) \<and> alloc_ok m' \<and> length news = k"
    and "\<forall>(m'::'a memory) news. cring m' (c news) \<longrightarrow> ring m' (m_head this) (g news)"
  shows "\<exists>m' news. r = f m' \<and> length news = k \<and> ring_kept this m' (g news)"
proof -
  from assms(1) obtain m' news where
    a: "r = f m'" "cring m' (c news)" "alloc_ok m'" "length news = k" by blast
  from assms(2) a(2) have "ring m' (m_head this) (g news)" by blast
  with a(3) have "ring_kept this m' (g news)" by (rule ring_keptI)
  with a(1,4) show ?thesis by blast
qed

lemma ring_at_node:
  fixes m :: "'a memory"
  assumes r: "ring m h as" and p: "p \<in> set (h # as)"
  shows "\<exists>rest. cring m (p # rest) \<and> set (p # rest) = set (h # as)
          \<and> (\<forall>(m'::'a memory) news. cring m' (p # rest @ news)
                \<longrightarrow> ring m' h (put_before p news as))
          \<and> (\<forall>(m'::'a memory) news. cring m' (p # news @ rest) \<longrightarrow> ring m' h (tl (put_after p news (h # as))))"
proof (cases "p = h")
  case True
  from r have d: "h \<notin> set as" by (simp add: ring_unfold)
  show ?thesis
    using r True d by (intro exI[of _ as]) (simp add: ring_def put_before_end)
next
  case False
  with p have "p \<in> set as" by simp
  then obtain xs ys where as: "as = xs @ p # ys" "p \<notin> set xs" by (auto dest: split_list_first)
  from r as have "cring m ((h # xs) @ (p # ys))" by (simp add: ring_def)
  then have c: "cring m (p # (ys @ h # xs))" using cring_rotate[of m "h # xs" "p # ys"] by simp
  have b: "\<forall>(m'::'a memory) news. cring m' (p # (ys @ h # xs) @ news) \<longrightarrow> ring m' h (put_before p news as)"
  proof (intro allI impI)
    fix m' :: "'a memory" and news
    assume "cring m' (p # (ys @ h # xs) @ news)"
    then have "cring m' ((p # ys) @ (h # xs @ news))" by simp
    then have "cring m' ((h # xs @ news) @ (p # ys))" by (rule cring_rotate)
    then show "ring m' h (put_before p news as)"
      using as by (simp add: ring_def put_before_mid)
  qed
  have a: "\<forall>(m'::'a memory) news. cring m' (p # news @ (ys @ h # xs))
      \<longrightarrow> ring m' h (tl (put_after p news (h # as)))"
  proof (intro allI impI)
    fix m' :: "'a memory" and news
    assume "cring m' (p # news @ (ys @ h # xs))"
    then have "cring m' ((p # news @ ys) @ (h # xs))" by simp
    then have "cring m' ((h # xs) @ (p # news @ ys))" by (rule cring_rotate)
    then show "ring m' h (tl (put_after p news (h # as)))"
      using as False by (simp add: ring_def put_after_mid)
  qed
  have s: "set (p # (ys @ h # xs)) = set (h # as)" using as by auto
  from c s b a show ?thesis by (intro exI[of _ "ys @ h # xs"]) simp
qed

lemma list_insert_before_kept:
  fixes m :: "'a memory"
  assumes ok: "alloc_ok m" and r: "ring m (m_head this) as" and p: "p \<in> set (m_head this # as)"
  shows "\<exists>m'. list_insert_before this p d m = Inr m'
           \<and> ring_kept this m' (put_before p [brk m] as)
           \<and> list_emplace_before this p d m = Inr m'"
proof -
  from ring_at_node[OF r p] obtain rest where
    n: "cring m (p # rest)"
      "\<forall>(m'::'a memory) news. cring m' (p # rest @ news)
         \<longrightarrow> ring m' (m_head this) (put_before p news as)"
    by blast
  from insert_before_cring[OF ok n(1), of this d] obtain m' where
    m': "list_insert_before this p d m = Inr m'" "cring m' (p # rest @ [brk m])" "alloc_ok m'"
    by blast
  have "list_emplace_before this p d m = list_insert_before this p d m"
    using ring_nonnull[OF ok r] by (simp add: list_emplace_before_def list_insert_before_def)
  moreover from n(2) m'(2) have "ring m' (m_head this) (put_before p [brk m] as)" by blast
  then have "ring_kept this m' (put_before p [brk m] as)" using m'(3) by (rule ring_keptI[rotated])
  ultimately show ?thesis using m'(1) by simp
qed

lemma list_insert_after_kept:
  fixes m :: "'a memory"
  assumes ok: "alloc_ok m" and r: "ring m (m_head this) as" and p: "p \<in> set (m_head this # as)"
  shows "\<exists>m'. list_insert_after this p d m = Inr m'
           \<and> ring_kept this m' (tl (put_after p [brk m] (m_head this # as)))
           \<and> list_emplace_after this p d m = Inr m'"
proof -
  from ring_at_node[OF r p] obtain rest where
    n: "cring m (p # rest)"
      "\<forall>(m'::'a memory) news. cring m' (p # news @ rest)
         \<longrightarrow> ring m' (m_head this) (tl (put_after p news (m_head this # as)))"
    by blast
  from insert_after_cring[OF ok n(1), of this d] obtain m' where
    m': "list_insert_after this p d m = Inr m'" "cring m' (p # [brk m] @ rest)" "alloc_ok m'"
    by auto
  have "list_emplace_after this p d m = list_insert_after this p d m"
    using ring_nonnull[OF ok r] by (simp add: list_emplace_after_def list_insert_after_def)
  moreover from n(2) m'(2)
  have "ring m' (m_head this) (tl (put_after p [brk m] (m_head this # as)))" by blast
  then have "ring_kept this m' (tl (put_after p [brk m] (m_head this # as)))"
    using m'(3) by (rule ring_keptI[rotated])
  ultimately show ?thesis using m'(1) by simp
qed

lemma insert_before_loops_kept:
  fixes m :: "'a memory"
  assumes ok: "alloc_ok m" and r: "ring m (m_head this) as" and p: "p \<in> set (m_head this # as)"
  shows "\<exists>m' news. insert_before_count fw this p k d m = Inr m' \<and> length news = k
           \<and> ring_kept this m' (put_before p news as)"
    and "\<exists>m' news. insert_before_values this p xs m = Inr m' \<and> length news = length xs
           \<and> ring_kept this m' (put_before p news as)"
    and "dseg m pv first rem lst l \<Longrightarrow> lst \<notin> set rem
           \<Longrightarrow> set rem \<inter> set (m_head this # as) = {}
           \<Longrightarrow> \<exists>m' news. insert_before_range this p first lst m = Some (Inr m')
                 \<and> length news = length rem \<and> ring_kept this m' (put_before p news as)"
proof -
  from ring_at_node[OF r p] obtain rest where
    n: "cring m (p # rest)" "set (p # rest) = set (m_head this # as)"
      "\<forall>(m'::'a memory) news. cring m' (p # rest @ news)
         \<longrightarrow> ring m' (m_head this) (put_before p news as)"
    by blast
  show "\<exists>m' news. insert_before_count fw this p k d m = Inr m' \<and> length news = k
           \<and> ring_kept this m' (put_before p news as)"
    using insert_before_count_cring[OF ok n(1), of fw this k d] n(3)
    by (rule ring_kept_from[where f=Inr and c="\<lambda>news. p # rest @ news"])
  show "\<exists>m' news. insert_before_values this p xs m = Inr m' \<and> length news = length xs
           \<and> ring_kept this m' (put_before p news as)"
    using insert_before_values_cring[OF ok n(1), of this xs] n(3)
    by (rule ring_kept_from[where f=Inr and c="\<lambda>news. p # rest @ news"])
  show "\<exists>m' news. insert_before_range this p first lst m = Some (Inr m')
                 \<and> length news = length rem \<and> ring_kept this m' (put_before p news as)"
    if "dseg m pv first rem lst l" "lst \<notin> set rem" "set rem \<inter> set (m_head this # as) = {}"
  proof -
    from that(3) n(2) have dj: "set rem \<inter> set (p # rest) = {}" by simp
    from insert_before_range_cring[OF ok that(1,2) n(1) dj, of this] n(3) show ?thesis
      by (rule ring_kept_from[where f="\<lambda>m'. Some (Inr m')" and c="\<lambda>news. p # rest @ news"])
  qed
qed

lemma insert_after_loops_kept:
  fixes m :: "'a memory"
  assumes ok: "alloc_ok m" and r: "ring m (m_head this) as" and p: "p \<in> set (m_head this # as)"
  shows "\<exists>m' news. insert_after_count fw this p k d m = Inr m' \<and> length news = k
           \<and> ring_kept this m' (tl (put_after p news (m_head this # as)))"
    and "\<exists>m' news. insert_after_values this p xs m = Inr m' \<and> length news = length xs
           \<and> ring_kept this m' (tl (put_after p news (m_head this # as)))"
    and "dseg m pv first rem lst l \<Longrightarrow> lst \<notin> set rem
           \<Longrightarrow> set rem \<inter> set (m_head this # as) = {}
           \<Longrightarrow> \<exists>m' news. insert_after_range this p first lst m = Some (Inr m')
                 \<and> length news = length rem
                 \<and> ring_kept this m' (tl (put_after p news (m_head this # as)))"
proof -
  from ring_at_node[OF r p] obtain rest where
    n: "cring m (p # rest)" "set (p # rest) = set (m_head this # as)"
      "\<forall>(m'::'a memory) news. cring m' (p # news @ rest)
         \<longrightarrow> ring m' (m_head this) (tl (put_after p news (m_head this # as)))"
    by blast
  show "\<exists>m' news. insert_after_count fw this p k d m = Inr m' \<and> length news = k
           \<and> ring_kept this m' (tl (put_after p news (m_head this # as)))"
    using insert_after_count_cring[OF ok n(1), of fw this k d] n(3)
    by (rule ring_kept_from[where f=Inr and c="\<lambda>news. p # news @ rest"])
  show "\<exists>m' news. insert_after_values this p xs m = Inr m' \<and> length news = length xs
           \<and> ring_kept this m' (tl (put_after p news (m_head this # as)))"
    using insert_after_values_cring[OF ok n(1), of this xs] n(3)
    by (rule ring_kept_from[where f=Inr and c="\<lambda>news. p # news @ rest"])
  show "\<exists>m' news. insert_after_range this p first lst m = Some (Inr m')
                 \<and> length news = length rem
                 \<and> ring_kept this m' (tl (put_after p news (m_head this # as)))"
    if "dseg m pv first rem lst l" "lst \<notin> set rem" "set rem \<inter> set (m_head this # as) = {}"
  proof -
    from that(3) n(2) have dj: "set rem \<inter> set (p # rest) = {}" by simp
    from insert_after_range_cring[OF ok that(1,2) n(1) dj, of this] n(3) show ?thesis
      by (rule ring_kept_from[where f="\<lambda>m'. Some (Inr m')" and c="\<lambda>news. p # news @ rest"])
  qed
qed

lemma emplace_at_is_insert:
  "m_head this \<noteq> nullptr \<Longrightarrow> list_emplace_before this p d m = list_insert_before this p d m"
  "m_head this \<noteq> nullptr \<Longrightarrow> list_emplace_after this p d m = list_insert_after this p d m"
  by (simp_all add: list_emplace_before_def list_emplace_after_def list_insert_before_def
        list_insert_after_def)

subsection \<open>Range erase, emplace, the range constructor and move assignment\<close>

lemma erase_range_kept:
  fixes m :: "'a memory"
  assumes ok: "alloc_ok m" and r: "ring m (m_head this) (xs @ seg @ ys)"
  shows "\<exists>m'. erase_range this (hd (seg @ ys @ [m_head this])) (hd (ys @ [m_head this])) m
             = Some (Inr (hd (ys @ [m_head this]), m'))
           \<and> ring_kept this m' (xs @ ys)"
proof -
  let ?h = "m_head this"
  let ?c = "ys @ ?h # xs"
  from r have "cring m ((?h # xs) @ (seg @ ys))" by (simp add: ring_def)
  then have "cring m ((seg @ ys) @ (?h # xs))" by (rule cring_rotate)
  then have c: "cring m (seg @ ?c)" by simp
  have ne: "?c \<noteq> []" by simp
  from erase_range_cring[OF ok c ne, of this] obtain m' where
    m': "erase_range this (hd (seg @ ?c)) (hd ?c) m = Some (Inr (hd ?c, m'))"
      "cring m' ?c" "alloc_ok m'"
    by blast
  have h1: "hd ?c = hd (ys @ [?h])" by (cases ys) simp_all
  have h2: "hd (seg @ ?c) = hd (seg @ ys @ [?h])" by (cases seg; cases ys) simp_all
  from m'(2) have "cring m' ((?h # xs) @ ys)" using cring_rotate[of m' ys "?h # xs"] by simp
  then have "ring m' ?h (xs @ ys)" by (simp add: ring_def)
  with m'(3) have "ring_kept this m' (xs @ ys)" by (rule ring_keptI)
  with m'(1) h1 h2 show ?thesis by simp
qed

lemma list_emplace_kept:
  fixes m :: "'a memory"
  assumes ok: "alloc_ok m" and r: "ring m (m_head this) as"
  shows "\<exists>m'. list_emplace_back d this m = Inr m' \<and> ring_kept this m' (as @ [brk m])"
    and "\<exists>m'. list_emplace_front d this m = Inr m' \<and> ring_kept this m' (brk m # as)"
proof -
  have nn: "m_head this \<noteq> nullptr" using ring_nonnull[OF ok r] .
  have b: "list_emplace_back d this m = list_push_back d this m"
    using nn by (simp add: list_emplace_back_def list_push_back_def)
  have f: "list_emplace_front d this m = list_push_front d this m"
    using nn by (simp add: list_emplace_front_def list_push_front_def)
  from list_push_back_ring[OF ok r, of d] obtain m' where
    "list_push_back d this m = Inr m'" "ring m' (m_head this) (as @ [brk m])" "alloc_ok m'"
    by blast
  with b show "\<exists>m'. list_emplace_back d this m = Inr m' \<and> ring_kept this m' (as @ [brk m])"
    by (auto intro: ring_keptI)
  from list_push_front_ring[OF ok r, of d] obtain m' where
    "list_push_front d this m = Inr m'" "ring m' (m_head this) (brk m # as)" "alloc_ok m'"
    by blast
  with f show "\<exists>m'. list_emplace_front d this m = Inr m' \<and> ring_kept this m' (brk m # as)"
    by (auto intro: ring_keptI)
qed

lemma list_ctor_range_kept:
  fixes m :: "('a::default) memory"
  assumes ok: "alloc_ok m" and s: "dseg m pv first rem lst l" and nl: "lst \<notin> set rem"
  shows "\<exists>b m' bs. list_ctor_range first lst m = Some (Inr (b, m')) \<and> ring_kept b m' bs
           \<and> list_elements b m' = Some (Inr (datas m rem))"
proof -
  from list_ctor_ring[OF ok] obtain m0 where
    m0: "list_ctor m = (\<lparr>m_head = brk m\<rparr>, m0)" "ring m0 (brk m) []" "alloc_ok m0"
      "brk m0 = Suc (brk m)" "\<forall>a. a \<noteq> brk m \<longrightarrow> cells m0 a = cells m a"
    by blast
  let ?b = "\<lparr>m_head = brk m\<rparr>"
  have al: "\<forall>a\<in>set rem. cells m a \<noteq> None" using dseg_allocated[OF s] by blast
  have nb: "brk m \<notin> set rem" using al alloc_ok_fresh[OF ok] by blast
  have fr: "\<forall>a\<in>set rem. cells m0 a = cells m a"
  proof
    fix a assume "a \<in> set rem"
    with nb have "a \<noteq> brk m" by blast
    with m0(5) show "cells m0 a = cells m a" by blast
  qed
  have s0: "dseg m0 pv first rem lst l" using s dseg_frame[OF fr] by simp
  have c0: "cring m0 (m_head ?b # [])" using m0(2) by (simp add: ring_def)
  have dj: "set rem \<inter> set (m_head ?b # []) = {}" using nb by simp
  from M_range_init_cring[OF m0(3) s0 nl c0 dj] obtain m' news where
    m': "M_range_init ?b first lst m0 = Some (Inr m')" "cring m' (m_head ?b # [] @ news)"
      "alloc_ok m'" "datas m' news = datas m0 rem"
    by blast
  have r: "ring m' (m_head ?b) news" using m'(2) by (simp add: ring_def)
  have k: "ring_kept ?b m' news" using m'(3) r by (rule ring_keptI)
  have e: "list_elements ?b m' = Some (Inr (datas m' news))" using ring_elements[OF r] .
  have d: "datas m0 rem = datas m rem" by (rule datas_frame) (use fr in auto)
  have "list_ctor_range first lst m = Some (Inr (?b, m'))"
    using m0(1) m'(1) by (simp add: list_ctor_range_def)
  with k e d m'(4) show ?thesis by auto
qed

lemma list_move_assign_kept:
  fixes m :: "('a::default) memory"
  assumes ok: "alloc_ok m" and r: "ring m (m_head this) as" and o: "ring m (m_head rhs) bs"
    and dj: "m_head this \<notin> set (m_head rhs # bs)"
  shows "\<exists>this' rhs' m'. list_move_assign False this rhs m = Some (Inr (this', rhs', m'))
           \<and> ring_kept this' m' bs \<and> ring_kept rhs' m' []
           \<and> list_elements this' m' = Some (Inr (datas m bs))"
proof -
  let ?h = "m_head this"
  have nn: "?h \<noteq> nullptr" using ring_nonnull[OF ok r] .
  from ring_allocated[OF r, of ?h] obtain n where n: "cells m ?h = Some n" by auto
  let ?m1 = "m\<lparr>cells := (cells m)(?h := None)\<rparr>"
  have cl: "list_clear this m = Some (Inr (this\<lparr>m_head := nullptr\<rparr>, ?m1))"
    using clear_loop_nonnull[OF nn, of m] n by (simp add: list_clear_def destroy_deallocate_def)
  let ?m2 = "?m1\<lparr>cells := (cells ?m1)(brk m \<mapsto> \<lparr>m_data = default, m_prev = brk m, m_next = brk m\<rparr>),
                 brk := Suc (brk m)\<rparr>"
  let ?t = "this\<lparr>m_head := nullptr, m_head := m_head rhs\<rparr>"
  let ?o = "rhs\<lparr>m_head := brk m\<rparr>"
  have ma: "list_move_assign False this rhs m = Some (Inr (?t, ?o, ?m2))"
    using cl by (simp add: list_move_assign_def M_move_assign_def M_create_node_def)
  have ok2: "alloc_ok ?m2" by (rule alloc_ok_step[OF ok]) auto
  have nb: "brk m \<notin> set (m_head rhs # bs)"
    using cring_fresh[OF ok, of "m_head rhs # bs"] o unfolding ring_def by blast
  have fr: "\<forall>a\<in>set (m_head rhs # bs). cells ?m2 a = cells m a"
  proof
    fix a assume a: "a \<in> set (m_head rhs # bs)"
    with nb have "a \<noteq> brk m" by auto
    moreover from a dj have "a \<noteq> ?h" by auto
    ultimately show "cells ?m2 a = cells m a" by simp
  qed
  have r2: "ring ?m2 (m_head ?t) bs" using o ring_frame[OF fr] by simp
  have e2: "ring ?m2 (m_head ?o) []" by (simp add: ring_def cring_def)
  have d: "datas ?m2 bs = datas m bs" by (rule datas_frame) (use fr in auto)
  have k1: "ring_kept ?t ?m2 bs" using ok2 r2 by (rule ring_keptI)
  have k2: "ring_kept ?o ?m2 []" using ok2 e2 by (rule ring_keptI)
  have "list_elements ?t ?m2 = Some (Inr (datas m bs))" using ring_elements[OF r2] d by simp
  with ma k1 k2 show ?thesis by blast
qed

section \<open>The claims\<close>

text \<open>
  C1, as the claim states it, fails on the code: \<^verbatim>\<open>empty()\<close> is to be true exactly when
  the sentinel's links both point to the sentinel. On \<^verbatim>\<open>list<int>{7}\<close> the sentinel
  (address 1) has \<^verbatim>\<open>m_next\<close> = 2 and the list holds the element 7, yet \<^verbatim>\<open>empty()\<close>
  returns true: the first operand \<^verbatim>\<open>m_head != nullptr\<close> of \<^verbatim>\<open>||\<close> already decides it.
\<close>

theorem empty_true_on_one_element:
  "(case list_ctor_values [7 :: int] empty_memory of
      Inl e \<Rightarrow> Inl e
    | Inr (l, m) \<Rightarrow>
        Inr (list_empty l m, list_elements l m, m_head l, map_option m_next (cells m (m_head l))))
   = Inr (Inr True, Some (Inr [7]), 1, Some 2)"
  by (simp add: run_defs collect.simps)

text \<open>
  C2, as the claim states it, fails on the code: on a list that holds elements,
  \<^verbatim>\<open>front()\<close> and \<^verbatim>\<open>back()\<close> are to return an optional holding a reference to the first
  and last element. On \<^verbatim>\<open>list<int>{7, 8}\<close> both return \<^verbatim>\<open>std::nullopt\<close>, because
  \<^verbatim>\<open>empty()\<close> is true there. (On the empty list they return \<^verbatim>\<open>std::nullopt\<close>, as
  claimed.)
\<close>

theorem front_back_nullopt_on_nonempty:
  "(case list_ctor_values [7 :: int, 8] empty_memory of
      Inl e \<Rightarrow> Inl e
    | Inr (l, m) \<Rightarrow> Inr (list_elements l m, list_front l m, list_back l m))
   = Inr (Some (Inr [7, 8]), Inr None, Inr None)
   \<and> (case list_ctor (empty_memory :: int memory) of
        (l, m) \<Rightarrow> (list_elements l m, list_front l m, list_back l m))
     = (Some (Inr []), Inr None, Inr None)"
  by (simp add: run_defs collect.simps)




text \<open>
  C4, as the claim states it, fails on the code: after \<^verbatim>\<open>push_back(1); push_back(2);
  push_front(0);\<close> on an empty list the sequence is [0, 1, 2] and \<^verbatim>\<open>size()\<close> is 3, as
  claimed, but \<^verbatim>\<open>front()\<close> and \<^verbatim>\<open>back()\<close> return \<^verbatim>\<open>std::nullopt\<close> instead of
  references to 0 and 2.
\<close>

theorem scenario_push_front_back:
  "bindE scenario_push
     (\<lambda>(l, m). Inr (list_elements l m, list_size l m, list_front l m, list_back l m))
   = Inr (Some (Inr [0, 1, 2]), Some (Inr 3), Inr None, Inr None)"
  by (simp add: scenario_push_def run_defs collect.simps distance.simps)

text \<open>
  C5: for every list and every position \<open>p\<close> at a real element (the ring is
  \<open>xs @ p # ys\<close>), \<^verbatim>\<open>erase(p)\<close> returns normally; afterwards the ring holds the nodes
  \<open>xs @ ys\<close> in this order, \<open>p\<close> is deallocated, no other node's element changes, no
  node outside the ring changes at all, the element sequence is the former one without
  \<open>p\<close>'s element, and the returned iterator is
  the node that followed \<open>p\<close> (the first of \<open>ys\<close>, or the sentinel, i.e. \<^verbatim>\<open>end()\<close>).
  The witness is the scenario \<^verbatim>\<open>erase(++begin())\<close> on [0, 1, 2].
\<close>

theorem list_erase_unlinks_node:
  assumes "alloc_ok m" and "ring m (m_head this) (xs @ p # ys)"
  shows "\<exists>m'. list_erase this p m = Inr (hd (ys @ [m_head this]), m')
           \<and> ring m' (m_head this) (xs @ ys)
           \<and> cells m' p = None
           \<and> (\<forall>a. a \<noteq> p \<longrightarrow> data_at m' a = data_at m a)
           \<and> (\<forall>a. a \<notin> set (m_head this # xs @ p # ys) \<longrightarrow> cells m' a = cells m a)
           \<and> list_elements this m = Some (Inr (datas m xs @ datas m [p] @ datas m ys))
           \<and> list_elements this m' = Some (Inr (datas m xs @ datas m ys))"
proof -
  from list_erase_ring[OF assms, of this] obtain m' where
    m': "list_erase this p m = Inr (hd (ys @ [m_head this]), m')" "ring m' (m_head this) (xs @ ys)"
      "cells m' p = None" "\<forall>a. a \<noteq> p \<longrightarrow> data_at m' a = data_at m a"
      "\<forall>a. a \<notin> set (m_head this # xs @ p # ys) \<longrightarrow> cells m' a = cells m a"
    by blast
  have d: "distinct (m_head this # xs @ p # ys)" using assms(2) by (simp add: ring_unfold)
  have al: "\<forall>a\<in>set (xs @ ys). cells m a \<noteq> None"
    using ring_allocated[OF assms(2)] by auto
  have "datas m' (xs @ ys) = datas m (xs @ ys)"
    by (rule datas_cong) (use m'(4) d al in auto)
  then have "list_elements this m' = Some (Inr (datas m xs @ datas m ys))"
    using ring_elements[OF m'(2)] by (simp add: datas_append)
  moreover have "list_elements this m = Some (Inr (datas m xs @ datas m [p] @ datas m ys))"
    using ring_elements[OF assms(2)] by (simp add: datas_def)
  ultimately show ?thesis using m' by blast
qed

theorem list_erase_unlinks_node_witness:
  "(case scenario_push of
      Inl e \<Rightarrow> False
    | Inr (l, m) \<Rightarrow>
        alloc_ok m \<and> ring m (m_head l) ([4] @ 2 # [3]) \<and>
        list_elements l m = Some (Inr [0, 1, 2]) \<and>
        bindE (list_begin l m) (\<lambda>b. iter_incr b m) = Inr 2 \<and>
        (\<exists>m'. list_erase l 2 m = Inr (3, m') \<and> list_elements l m' = Some (Inr [0, 2])
           \<and> iter_deref 3 m' = Inr 2 \<and> cells m' 2 = None))"
proof -
  let ?m = "\<lparr>cells = [1 \<mapsto> \<lparr>m_data = 0 :: int, m_prev = 3, m_next = 4\<rparr>,
                       2 \<mapsto> \<lparr>m_data = 1, m_prev = 4, m_next = 3\<rparr>,
                       3 \<mapsto> \<lparr>m_data = 2, m_prev = 2, m_next = 1\<rparr>,
                       4 \<mapsto> \<lparr>m_data = 0, m_prev = 1, m_next = 2\<rparr>], brk = 5\<rparr>"
  let ?l = "\<lparr>m_head = 1\<rparr>"
  have run: "scenario_push = Inr (?l, ?m)"
    by (auto simp: scenario_push_def run_defs fun_eq_iff)
  have ok: "alloc_ok ?m" by (simp add: alloc_ok_def)
  have r: "ring ?m (m_head ?l) ([4] @ 2 # [3])" by (simp add: ring_def cring_def)
  from list_erase_unlinks_node[OF ok r] obtain m' where
    m': "list_erase ?l 2 ?m = Inr (3, m')" "cells m' 2 = None" "data_at m' 3 = data_at ?m 3"
      "list_elements ?l ?m = Some (Inr (datas ?m [4] @ datas ?m [2] @ datas ?m [3]))"
      "list_elements ?l m' = Some (Inr (datas ?m [4] @ datas ?m [3]))"
    by auto
  from m'(3) have "iter_deref 3 m' = Inr 2"
    by (auto simp: data_at_def iter_deref_def deref_def split: option.splits)
  with m' ok r show ?thesis
    by (simp add: run datas_def list_begin_def iter_incr_def)
qed

text \<open>
  C7, as the claim states it, fails on the code: with a = [1] and b = [2, 3], distinct
  objects, \<^verbatim>\<open>a = b\<close> is to leave a with the sequence [2, 3]. \<^verbatim>\<open>operator=\<close> calls
  \<^verbatim>\<open>__M_copy_assign(rhs, std::false_type)\<close>, whose \<^verbatim>\<open>clear()\<close> nulls \<^verbatim>\<open>m_head\<close>; the
  \<^verbatim>\<open>empty()\<close> in \<^verbatim>\<open>__M_assign\<close> then reads through the null head. With the
  \<^verbatim>\<open>std::true_type\<close> overload the result would be [1, 2, 3]: \<^verbatim>\<open>empty()\<close> is true, so
  the source is appended.
\<close>

theorem copy_assign_null_deref:
  "(case list_ctor_values [1 :: int] empty_memory of
      Inl e \<Rightarrow> None
    | Inr (a, m1) \<Rightarrow>
        (case list_ctor_values [2, 3] m1 of
           Inl e \<Rightarrow> None
         | Inr (b, m2) \<Rightarrow>
             Some (list_elements a m2, list_elements b m2, list_copy_assign False a b m2,
                   (case M_copy_assign True a b m2 of
                      Some (Inr (a', m3)) \<Rightarrow> list_elements a' m3
                    | _ \<Rightarrow> None))))
   = Some (Some (Inr [1]), Some (Inr [2, 3]), Some (Inl Null_deref), Some (Inr [1, 2, 3]))"
  by (simp add: run_defs list_copy_assign_def M_copy_assign_def M_assign_def
       collect.simps clear_loop.simps M_range_init.simps)

text \<open>
  C6, as the claim states it, fails on the code: the ring anchored at the sentinel is to
  exist after every public operation on every list. After the public operation
  \<^verbatim>\<open>pop_front()\<close> on a default-constructed (empty) list the sentinel is deallocated:
  \<^verbatim>\<open>m_head\<close> dangles, no node is reachable from it, and \<^verbatim>\<open>size()\<close> reads through the
  dangling head.
\<close>

theorem pop_front_on_empty_leaves_no_ring:
  "(case list_ctor (empty_memory :: int memory) of
      (l, m) \<Rightarrow>
        (case list_pop_front l m of
           Inr m' \<Rightarrow>
             Some (list_elements l m, cells m' (m_head l), follow_next m' (m_head l) 1,
                   list_size l m')
         | Inl e \<Rightarrow> None))
   = Some (Some (Inr []), None, None, Some (Inl Dangling_deref))"
  by (simp add: run_defs collect.simps)

text \<open>
  C6, amended: on every list whose nodes form a ring anchored at the sentinel, the ring
  invariant holds (every node reached from the head by \<^verbatim>\<open>m_next\<close> has
  \<^verbatim>\<open>n.prev.next == n\<close> and \<^verbatim>\<open>n.next.prev == n\<close>, and following \<^verbatim>\<open>m_next\<close> from the head
  returns to the head after exactly \<^verbatim>\<open>size() + 1\<close> steps), and it holds again after
  every public operation but \<^verbatim>\<open>clear()\<close>, copy assignment and \<^verbatim>\<open>pop_front\<close>,
  \<^verbatim>\<open>pop_back\<close> and \<^verbatim>\<open>erase\<close> at the sentinel. Each of these returns normally and
  leaves a ring:
  \<^item> the default, initializer-list, iterator-range, copy and move constructors (for the
    new list and for the source);
  \<^item> move assignment, from the list itself and from another list (for both lists);
  \<^item> \<^verbatim>\<open>push_back\<close>, \<^verbatim>\<open>push_front\<close>, \<^verbatim>\<open>emplace_back\<close>, \<^verbatim>\<open>emplace_front\<close>;
  \<^item> \<^verbatim>\<open>insert_before\<close>, \<^verbatim>\<open>insert_after\<close>, \<^verbatim>\<open>emplace_before\<close>, \<^verbatim>\<open>emplace_after\<close> at
    every node of the ring, the sentinel (\<^verbatim>\<open>end()\<close>) included, and the count and range
    forms of \<^verbatim>\<open>insert_before\<close> and \<^verbatim>\<open>insert_after\<close> at every such node, the range being
    a sequence of values or the nodes \<^verbatim>\<open>[first, last)\<close> of another list;
  \<^item> \<^verbatim>\<open>erase\<close> at a real element, and \<^verbatim>\<open>erase(first, last)\<close> over every run of real
    elements, up to a real element or to \<^verbatim>\<open>end()\<close>;
  \<^item> \<^verbatim>\<open>pop_front\<close> and \<^verbatim>\<open>pop_back\<close> on a list that holds an element.
\<close>

theorem ring_invariant_maintained:
  fixes m :: "('a::default) memory"
  assumes ok: "alloc_ok m" and r: "ring m (m_head this) as"
  shows "ring_props this m
    \<and> (case list_ctor m of (l, m') \<Rightarrow> ring_kept l m' [])
    \<and> (\<exists>l m' bs. list_ctor_values vs m = Inr (l, m') \<and> ring_kept l m' bs
           \<and> list_elements l m' = Some (Inr vs))
    \<and> (\<forall>pv first rem lst l. dseg m pv first rem lst l \<and> lst \<notin> set rem \<longrightarrow>
          (\<exists>b m' bs. list_ctor_range first lst m = Some (Inr (b, m')) \<and> ring_kept b m' bs
             \<and> list_elements b m' = Some (Inr (datas m rem))))
    \<and> (\<exists>b m' bs. list_copy_ctor uninit this m = Some (Inr (b, m')) \<and> ring_kept b m' bs
           \<and> ring_kept this m' as)
    \<and> (\<exists>b this' m'. list_move_ctor this m = (b, this', m') \<and> ring_kept b m' as
           \<and> ring_kept this' m' [])
    \<and> list_move_assign True this this m = Some (Inr (this, this, m))
    \<and> (\<forall>(rhs::list_obj) bs. ring m (m_head rhs) bs \<and> m_head this \<notin> set (m_head rhs # bs) \<longrightarrow>
          (\<exists>this' rhs' m'. list_move_assign False this rhs m = Some (Inr (this', rhs', m'))
             \<and> ring_kept this' m' bs \<and> ring_kept rhs' m' []))
    \<and> (\<exists>m'. list_push_back d this m = Inr m' \<and> ring_kept this m' (as @ [brk m]))
    \<and> (\<exists>m'. list_push_front d this m = Inr m' \<and> ring_kept this m' (brk m # as))
    \<and> (\<exists>m'. list_emplace_back d this m = Inr m' \<and> ring_kept this m' (as @ [brk m]))
    \<and> (\<exists>m'. list_emplace_front d this m = Inr m' \<and> ring_kept this m' (brk m # as))
    \<and> (\<exists>m'. list_insert_before this (m_head this) d m = Inr m'
           \<and> list_emplace_before this (m_head this) d m = Inr m'
           \<and> ring_kept this m' (as @ [brk m]))
    \<and> (\<exists>m'. list_insert_after this (m_head this) d m = Inr m'
           \<and> list_emplace_after this (m_head this) d m = Inr m'
           \<and> ring_kept this m' (brk m # as))
    \<and> (\<forall>xs p ys. as = xs @ p # ys \<longrightarrow>
          (\<exists>m'. list_insert_before this p d m = Inr m'
             \<and> list_emplace_before this p d m = Inr m'
             \<and> ring_kept this m' (xs @ brk m # p # ys))
        \<and> (\<exists>m'. list_insert_after this p d m = Inr m'
             \<and> list_emplace_after this p d m = Inr m'
             \<and> ring_kept this m' (xs @ p # brk m # ys))
        \<and> (\<exists>m'. list_erase this p m = Inr (hd (ys @ [m_head this]), m')
             \<and> ring_kept this m' (xs @ ys)))
    \<and> (\<forall>p\<in>set (m_head this # as).
          (\<exists>m' news. insert_before_count forwarded this p count d m = Inr m'
             \<and> length news = count \<and> ring_kept this m' (put_before p news as))
        \<and> (\<exists>m' news. insert_after_count forwarded this p count d m = Inr m'
             \<and> length news = count
             \<and> ring_kept this m' (tl (put_after p news (m_head this # as))))
        \<and> (\<exists>m' news. insert_before_values this p vs m = Inr m'
             \<and> length news = length vs \<and> ring_kept this m' (put_before p news as))
        \<and> (\<exists>m' news. insert_after_values this p vs m = Inr m'
             \<and> length news = length vs
             \<and> ring_kept this m' (tl (put_after p news (m_head this # as))))
        \<and> (\<forall>pv first rem lst l.
              dseg m pv first rem lst l \<and> lst \<notin> set rem
              \<and> set rem \<inter> set (m_head this # as) = {} \<longrightarrow>
              (\<exists>m' news. insert_before_range this p first lst m = Some (Inr m')
                 \<and> length news = length rem \<and> ring_kept this m' (put_before p news as))
            \<and> (\<exists>m' news. insert_after_range this p first lst m = Some (Inr m')
                 \<and> length news = length rem
                 \<and> ring_kept this m' (tl (put_after p news (m_head this # as))))))
    \<and> (\<forall>xs seg ys. as = xs @ seg @ ys \<longrightarrow>
          (\<exists>m'. erase_range this (hd (seg @ ys @ [m_head this])) (hd (ys @ [m_head this])) m
                  = Some (Inr (hd (ys @ [m_head this]), m'))
             \<and> ring_kept this m' (xs @ ys)))
    \<and> (as \<noteq> [] \<longrightarrow>
          (\<exists>m'. list_pop_front this m = Inr m' \<and> ring_kept this m' (tl as))
        \<and> (\<exists>m'. list_pop_back this m = Inr m' \<and> ring_kept this m' (butlast as)))"
proof -
  have nn: "m_head this \<noteq> nullptr" using ring_nonnull[OF ok r] .
  have hd_notin: "m_head this \<notin> set as" using r by (simp add: ring_unfold)
  have p0: "ring_props this m" using r by (rule ring_ring_props)
  have c1: "case list_ctor m of (l, m') \<Rightarrow> ring_kept l m' []"
  proof -
    from list_ctor_ring[OF ok] obtain m' where
      c: "list_ctor m = (\<lparr>m_head = brk m\<rparr>, m')" "ring m' (brk m) []" "alloc_ok m'" by blast
    have "ring_kept \<lparr>m_head = brk m\<rparr> m' []" by (rule ring_keptI[OF c(3)]) (use c(2) in simp)
    with c(1) show ?thesis by simp
  qed
  have c2: "\<exists>l m' bs. list_ctor_values vs m = Inr (l, m') \<and> ring_kept l m' bs
           \<and> list_elements l m' = Some (Inr vs)"
  proof -
    from list_ctor_values_ring[OF ok, of vs] obtain m' bs where
      v: "list_ctor_values vs m = Inr (\<lparr>m_head = brk m\<rparr>, m')" "ring m' (brk m) bs" "alloc_ok m'"
        "list_elements \<lparr>m_head = brk m\<rparr> m' = Some (Inr vs)"
      by blast
    have "ring_kept \<lparr>m_head = brk m\<rparr> m' bs" by (rule ring_keptI[OF v(3)]) (use v(2) in simp)
    with v(1,4) show ?thesis by blast
  qed
  have c3: "\<forall>pv first rem lst l. dseg m pv first rem lst l \<and> lst \<notin> set rem \<longrightarrow>
          (\<exists>b m' bs. list_ctor_range first lst m = Some (Inr (b, m')) \<and> ring_kept b m' bs
             \<and> list_elements b m' = Some (Inr (datas m rem)))"
    using list_ctor_range_kept[OF ok] by blast
  have c4: "\<exists>b m' bs. list_copy_ctor uninit this m = Some (Inr (b, m')) \<and> ring_kept b m' bs
           \<and> ring_kept this m' as"
  proof -
    let ?b = "\<lparr>m_head = brk m\<rparr>"
    from list_copy_ctor_ring[OF ok r, of uninit] obtain m' bs where
      c: "list_copy_ctor uninit this m = Some (Inr (?b, m'))" "ring m' (brk m) bs" "alloc_ok m'"
        "\<forall>x. x < brk m \<longrightarrow> cells m' x = cells m x"
      by blast
    have "\<forall>x\<in>set (m_head this # as). cells m' x = cells m x"
      using alloc_ok_less[OF ok] ring_allocated[OF r] c(4) by blast
    then have ra: "ring m' (m_head this) as" using r ring_frame by blast
    have rb: "ring m' (m_head ?b) bs" using c(2) by simp
    from c(1) ring_keptI[OF c(3) ra] ring_keptI[OF c(3) rb] show ?thesis by blast
  qed
  have c5: "\<exists>b this' m'. list_move_ctor this m = (b, this', m') \<and> ring_kept b m' as
           \<and> ring_kept this' m' []"
  proof -
    let ?b = "\<lparr>m_head = m_head this\<rparr>"
    let ?t = "this\<lparr>m_head := brk m\<rparr>"
    from list_move_ctor_ring[OF ok r] obtain m' where
      c: "list_move_ctor this m = (?b, ?t, m')" "alloc_ok m'" "ring m' (m_head this) as"
        "ring m' (brk m) []"
      by blast
    have rb: "ring m' (m_head ?b) as" using c(3) by simp
    have rt: "ring m' (m_head ?t) []" using c(4) by simp
    from c(1) ring_keptI[OF c(2) rb] ring_keptI[OF c(2) rt] show ?thesis by blast
  qed
  have c6: "list_move_assign True this this m = Some (Inr (this, this, m))"
    by (simp add: list_move_assign_def)
  have c7: "\<forall>(rhs::list_obj) bs. ring m (m_head rhs) bs \<and> m_head this \<notin> set (m_head rhs # bs) \<longrightarrow>
          (\<exists>this' rhs' m'. list_move_assign False this rhs m = Some (Inr (this', rhs', m'))
             \<and> ring_kept this' m' bs \<and> ring_kept rhs' m' [])"
  proof (intro allI impI)
    fix rhs :: list_obj and bs assume a: "ring m (m_head rhs) bs \<and> m_head this \<notin> set (m_head rhs # bs)"
    from list_move_assign_kept[OF ok r conjunct1[OF a] conjunct2[OF a]]
    show "\<exists>this' rhs' m'. list_move_assign False this rhs m = Some (Inr (this', rhs', m'))
             \<and> ring_kept this' m' bs \<and> ring_kept rhs' m' []" by blast
  qed
  have c8: "\<exists>m'. list_push_back d this m = Inr m' \<and> ring_kept this m' (as @ [brk m])"
    using list_push_back_ring[OF ok r, of d] ring_keptI by blast
  have c9: "\<exists>m'. list_push_front d this m = Inr m' \<and> ring_kept this m' (brk m # as)"
    using list_push_front_ring[OF ok r, of d] ring_keptI by blast
  note c10 = list_emplace_kept(1)[OF ok r, of d]
  note c11 = list_emplace_kept(2)[OF ok r, of d]
  have c12: "\<exists>m'. list_insert_before this (m_head this) d m = Inr m'
           \<and> list_emplace_before this (m_head this) d m = Inr m'
           \<and> ring_kept this m' (as @ [brk m])"
    using list_insert_before_kept[OF ok r, of "m_head this" d] hd_notin
    by (simp add: put_before_end) blast
  have c13: "\<exists>m'. list_insert_after this (m_head this) d m = Inr m'
           \<and> list_emplace_after this (m_head this) d m = Inr m'
           \<and> ring_kept this m' (brk m # as)"
    using list_insert_after_kept[OF ok r, of "m_head this" d] by simp blast
  have c14: "\<forall>xs p ys. as = xs @ p # ys \<longrightarrow>
          (\<exists>m'. list_insert_before this p d m = Inr m'
             \<and> list_emplace_before this p d m = Inr m'
             \<and> ring_kept this m' (xs @ brk m # p # ys))
        \<and> (\<exists>m'. list_insert_after this p d m = Inr m'
             \<and> list_emplace_after this p d m = Inr m'
             \<and> ring_kept this m' (xs @ p # brk m # ys))
        \<and> (\<exists>m'. list_erase this p m = Inr (hd (ys @ [m_head this]), m')
             \<and> ring_kept this m' (xs @ ys))"
  proof (intro allI impI)
    fix xs p ys assume as: "as = xs @ p # ys"
    with r have r': "ring m (m_head this) (xs @ p # ys)" by simp
    have a: "\<exists>m'. list_insert_before this p d m = Inr m'
             \<and> list_emplace_before this p d m = Inr m'
             \<and> ring_kept this m' (xs @ brk m # p # ys)"
      using list_insert_before_ring[OF ok r', of this d] ring_keptI emplace_at_is_insert(1)[OF nn]
      by metis
    have b: "\<exists>m'. list_insert_after this p d m = Inr m'
             \<and> list_emplace_after this p d m = Inr m'
             \<and> ring_kept this m' (xs @ p # brk m # ys)"
      using list_insert_after_ring[OF ok r', of this d] ring_keptI emplace_at_is_insert(2)[OF nn]
      by metis
    have c: "\<exists>m'. list_erase this p m = Inr (hd (ys @ [m_head this]), m')
             \<and> ring_kept this m' (xs @ ys)"
      using list_erase_ring[OF ok r', of this] ring_keptI by blast
    from a b c show "(\<exists>m'. list_insert_before this p d m = Inr m'
             \<and> list_emplace_before this p d m = Inr m'
             \<and> ring_kept this m' (xs @ brk m # p # ys))
        \<and> (\<exists>m'. list_insert_after this p d m = Inr m'
             \<and> list_emplace_after this p d m = Inr m'
             \<and> ring_kept this m' (xs @ p # brk m # ys))
        \<and> (\<exists>m'. list_erase this p m = Inr (hd (ys @ [m_head this]), m')
             \<and> ring_kept this m' (xs @ ys))" by (intro conjI)
  qed
  have c15: "\<forall>p\<in>set (m_head this # as).
          (\<exists>m' news. insert_before_count forwarded this p count d m = Inr m'
             \<and> length news = count \<and> ring_kept this m' (put_before p news as))
        \<and> (\<exists>m' news. insert_after_count forwarded this p count d m = Inr m'
             \<and> length news = count
             \<and> ring_kept this m' (tl (put_after p news (m_head this # as))))
        \<and> (\<exists>m' news. insert_before_values this p vs m = Inr m'
             \<and> length news = length vs \<and> ring_kept this m' (put_before p news as))
        \<and> (\<exists>m' news. insert_after_values this p vs m = Inr m'
             \<and> length news = length vs
             \<and> ring_kept this m' (tl (put_after p news (m_head this # as))))
        \<and> (\<forall>pv first rem lst l.
              dseg m pv first rem lst l \<and> lst \<notin> set rem
              \<and> set rem \<inter> set (m_head this # as) = {} \<longrightarrow>
              (\<exists>m' news. insert_before_range this p first lst m = Some (Inr m')
                 \<and> length news = length rem \<and> ring_kept this m' (put_before p news as))
            \<and> (\<exists>m' news. insert_after_range this p first lst m = Some (Inr m')
                 \<and> length news = length rem
                 \<and> ring_kept this m' (tl (put_after p news (m_head this # as)))))"
  proof
    fix p assume p: "p \<in> set (m_head this # as)"
    note b = insert_before_loops_kept[OF ok r p]
    note a = insert_after_loops_kept[OF ok r p]
    have rg: "\<forall>pv first rem lst l.
              dseg m pv first rem lst l \<and> lst \<notin> set rem
              \<and> set rem \<inter> set (m_head this # as) = {} \<longrightarrow>
              (\<exists>m' news. insert_before_range this p first lst m = Some (Inr m')
                 \<and> length news = length rem \<and> ring_kept this m' (put_before p news as))
            \<and> (\<exists>m' news. insert_after_range this p first lst m = Some (Inr m')
                 \<and> length news = length rem
                 \<and> ring_kept this m' (tl (put_after p news (m_head this # as))))"
    proof (intro allI impI)
      fix pv first rem lst l
      assume h: "dseg m pv first rem lst l \<and> lst \<notin> set rem
              \<and> set rem \<inter> set (m_head this # as) = {}"
      then have h1: "dseg m pv first rem lst l" and h2: "lst \<notin> set rem"
        and h3: "set rem \<inter> set (m_head this # as) = {}" by blast+
      from b(3)[OF h1 h2 h3] a(3)[OF h1 h2 h3]
      show "(\<exists>m' news. insert_before_range this p first lst m = Some (Inr m')
                 \<and> length news = length rem \<and> ring_kept this m' (put_before p news as))
            \<and> (\<exists>m' news. insert_after_range this p first lst m = Some (Inr m')
                 \<and> length news = length rem
                 \<and> ring_kept this m' (tl (put_after p news (m_head this # as))))" ..
    qed
    from b(1)[of forwarded count d] a(1)[of forwarded count d] b(2)[of vs] a(2)[of vs] rg
    show "(\<exists>m' news. insert_before_count forwarded this p count d m = Inr m'
             \<and> length news = count \<and> ring_kept this m' (put_before p news as))
        \<and> (\<exists>m' news. insert_after_count forwarded this p count d m = Inr m'
             \<and> length news = count
             \<and> ring_kept this m' (tl (put_after p news (m_head this # as))))
        \<and> (\<exists>m' news. insert_before_values this p vs m = Inr m'
             \<and> length news = length vs \<and> ring_kept this m' (put_before p news as))
        \<and> (\<exists>m' news. insert_after_values this p vs m = Inr m'
             \<and> length news = length vs
             \<and> ring_kept this m' (tl (put_after p news (m_head this # as))))
        \<and> (\<forall>pv first rem lst l.
              dseg m pv first rem lst l \<and> lst \<notin> set rem
              \<and> set rem \<inter> set (m_head this # as) = {} \<longrightarrow>
              (\<exists>m' news. insert_before_range this p first lst m = Some (Inr m')
                 \<and> length news = length rem \<and> ring_kept this m' (put_before p news as))
            \<and> (\<exists>m' news. insert_after_range this p first lst m = Some (Inr m')
                 \<and> length news = length rem
                 \<and> ring_kept this m' (tl (put_after p news (m_head this # as)))))"
      by (intro conjI)
  qed
  have c16: "\<forall>xs seg ys. as = xs @ seg @ ys \<longrightarrow>
          (\<exists>m'. erase_range this (hd (seg @ ys @ [m_head this])) (hd (ys @ [m_head this])) m
                  = Some (Inr (hd (ys @ [m_head this]), m'))
             \<and> ring_kept this m' (xs @ ys))"
  proof (intro allI impI)
    fix xs seg ys assume "as = xs @ seg @ ys"
    with r have "ring m (m_head this) (xs @ seg @ ys)" by simp
    from erase_range_kept[OF ok this]
    show "\<exists>m'. erase_range this (hd (seg @ ys @ [m_head this])) (hd (ys @ [m_head this])) m
                  = Some (Inr (hd (ys @ [m_head this]), m'))
             \<and> ring_kept this m' (xs @ ys)" .
  qed
  have c17: "as \<noteq> [] \<longrightarrow>
          (\<exists>m'. list_pop_front this m = Inr m' \<and> ring_kept this m' (tl as))
        \<and> (\<exists>m'. list_pop_back this m = Inr m' \<and> ring_kept this m' (butlast as))"
  proof
    assume ne: "as \<noteq> []"
    then obtain a as' where c: "as = a # as'" by (cases as) auto
    from ne obtain as'' z where s: "as = as'' @ [z]" by (cases as rule: rev_cases) auto
    from r c have rc: "ring m (m_head this) (a # as')" by simp
    from r s have rs: "ring m (m_head this) (as'' @ [z])" by simp
    have a: "\<exists>m'. list_pop_front this m = Inr m' \<and> ring_kept this m' (tl as)"
      using list_pop_front_ring[OF ok rc] c ring_keptI by fastforce
    have b: "\<exists>m'. list_pop_back this m = Inr m' \<and> ring_kept this m' (butlast as)"
      using list_pop_back_ring[OF ok rs] s ring_keptI by fastforce
    from a b show "(\<exists>m'. list_pop_front this m = Inr m' \<and> ring_kept this m' (tl as))
        \<and> (\<exists>m'. list_pop_back this m = Inr m' \<and> ring_kept this m' (butlast as))" ..
  qed
  from p0 c1 c2 c3 c4 c5 c6 c7 c8 c9 c10 c11 c12 c13 c14 c15 c16 c17
  show ?thesis by (intro conjI)
qed

theorem ring_invariant_maintained_witness:
  "(case scenario_two_lists of
      Inl e \<Rightarrow> False
    | Inr (l, l2, m) \<Rightarrow>
        alloc_ok m \<and> ring m (m_head l) [4, 2, 3] \<and> ring m (m_head l2) [6, 7]
        \<and> m_head l = 1 \<and> m_head l2 = 5 \<and> brk m = 8 \<and> ring_props l m \<and>
        (\<exists>b m' bs. list_ctor_values [7, 8] m = Inr (b, m') \<and> ring_kept b m' bs
           \<and> list_elements b m' = Some (Inr [7, 8])) \<and>
        (\<exists>b m' bs. list_ctor_range 6 5 m = Some (Inr (b, m')) \<and> ring_kept b m' bs
           \<and> list_elements b m' = Some (Inr [7, 8])) \<and>
        (\<exists>b m' bs. list_copy_ctor 0 l m = Some (Inr (b, m')) \<and> ring_kept b m' bs
           \<and> ring_kept l m' [4, 2, 3]) \<and>
        (\<exists>b l' m'. list_move_ctor l m = (b, l', m') \<and> ring_kept b m' [4, 2, 3]
           \<and> ring_kept l' m' []) \<and>
        (\<exists>l' r' m'. list_move_assign False l l2 m = Some (Inr (l', r', m'))
           \<and> ring_kept l' m' [6, 7] \<and> ring_kept r' m' []) \<and>
        (\<exists>m'. list_push_back 9 l m = Inr m' \<and> ring_kept l m' [4, 2, 3, 8]) \<and>
        (\<exists>m'. list_push_front 9 l m = Inr m' \<and> ring_kept l m' [8, 4, 2, 3]) \<and>
        (\<exists>m'. list_emplace_back 9 l m = Inr m' \<and> ring_kept l m' [4, 2, 3, 8]) \<and>
        (\<exists>m'. list_emplace_front 9 l m = Inr m' \<and> ring_kept l m' [8, 4, 2, 3]) \<and>
        (\<exists>m'. list_insert_before l 1 9 m = Inr m' \<and> list_emplace_before l 1 9 m = Inr m'
           \<and> ring_kept l m' [4, 2, 3, 8]) \<and>
        (\<exists>m'. list_insert_after l 1 9 m = Inr m' \<and> list_emplace_after l 1 9 m = Inr m'
           \<and> ring_kept l m' [8, 4, 2, 3]) \<and>
        (\<exists>m'. list_insert_before l 2 9 m = Inr m' \<and> list_emplace_before l 2 9 m = Inr m'
           \<and> ring_kept l m' [4, 8, 2, 3]) \<and>
        (\<exists>m'. list_insert_after l 2 9 m = Inr m' \<and> list_emplace_after l 2 9 m = Inr m'
           \<and> ring_kept l m' [4, 2, 8, 3]) \<and>
        (\<exists>m'. list_erase l 2 m = Inr (3, m') \<and> ring_kept l m' [4, 3]) \<and>
        (\<exists>m' news. insert_before_count (\<lambda>d. (d, d)) l 1 2 9 m = Inr m' \<and> length news = 2
           \<and> ring_kept l m' (4 # 2 # 3 # news)) \<and>
        (\<exists>m' news. insert_after_count (\<lambda>d. (d, d)) l 2 2 9 m = Inr m' \<and> length news = 2
           \<and> ring_kept l m' (4 # 2 # news @ [3])) \<and>
        (\<exists>m' news. insert_before_values l 2 [7, 8] m = Inr m' \<and> length news = 2
           \<and> ring_kept l m' (4 # news @ [2, 3])) \<and>
        (\<exists>m' news. insert_after_values l 1 [7, 8] m = Inr m' \<and> length news = 2
           \<and> ring_kept l m' (news @ [4, 2, 3])) \<and>
        (\<exists>m' news. insert_before_range l 1 6 5 m = Some (Inr m') \<and> length news = 2
           \<and> ring_kept l m' (4 # 2 # 3 # news)) \<and>
        (\<exists>m' news. insert_after_range l 2 6 5 m = Some (Inr m') \<and> length news = 2
           \<and> ring_kept l m' (4 # 2 # news @ [3])) \<and>
        (\<exists>m'. erase_range l 4 3 m = Some (Inr (3, m')) \<and> ring_kept l m' [3]) \<and>
        (\<exists>m'. erase_range l 2 1 m = Some (Inr (1, m')) \<and> ring_kept l m' [4]) \<and>
        (\<exists>m'. list_pop_front l m = Inr m' \<and> ring_kept l m' [2, 3]) \<and>
        (\<exists>m'. list_pop_back l m = Inr m' \<and> ring_kept l m' [4, 2]))"
proof -
  let ?m = "\<lparr>cells = [1 \<mapsto> \<lparr>m_data = 0 :: int, m_prev = 3, m_next = 4\<rparr>,
                       2 \<mapsto> \<lparr>m_data = 1, m_prev = 4, m_next = 3\<rparr>,
                       3 \<mapsto> \<lparr>m_data = 2, m_prev = 2, m_next = 1\<rparr>,
                       4 \<mapsto> \<lparr>m_data = 0, m_prev = 1, m_next = 2\<rparr>,
                       5 \<mapsto> \<lparr>m_data = 0, m_prev = 7, m_next = 6\<rparr>,
                       6 \<mapsto> \<lparr>m_data = 7, m_prev = 5, m_next = 7\<rparr>,
                       7 \<mapsto> \<lparr>m_data = 8, m_prev = 6, m_next = 5\<rparr>], brk = 8\<rparr>"
  let ?l = "\<lparr>m_head = 1\<rparr>"
  let ?l2 = "\<lparr>m_head = 5\<rparr>"
  have run: "scenario_two_lists = Inr (?l, ?l2, ?m)"
    by (auto simp: scenario_two_lists_def scenario_push_def run_defs fun_eq_iff)
  have ok: "alloc_ok ?m" by (simp add: alloc_ok_def)
  have r: "ring ?m (m_head ?l) [4, 2, 3]" by (simp add: ring_def cring_def)
  have r2: "ring ?m (m_head ?l2) [6, 7]" by (simp add: ring_def cring_def)
  have other: "ring ?m (m_head ?l2) [6, 7] \<and> m_head ?l \<notin> set (m_head ?l2 # [6, 7])"
    using r2 by simp
  have src: "dseg ?m 5 6 [6, 7] 5 7 \<and> (5::addr) \<notin> set [6, 7]" by simp
  have src': "dseg ?m 5 6 [6, 7] 5 7 \<and> (5::addr) \<notin> set [6, 7]
      \<and> set [6, 7] \<inter> set (m_head ?l # [4, 2, 3]) = {}" by simp
  have mid: "[4, 2, 3] = [4] @ 2 # [3::addr]" by simp
  have seg1: "[4, 2, 3] = [] @ [4, 2] @ [3::addr]" by simp
  have seg2: "[4, 2, 3] = [4] @ [2, 3::addr] @ []" by simp
  have in1: "1 \<in> set (m_head ?l # [4, 2, 3])" by simp
  have in2: "2 \<in> set (m_head ?l # [4, 2, 3])" by simp
  have ne: "[4, 2, 3] \<noteq> ([] :: addr list)" by simp
  have d: "datas ?m [6, 7] = [7, 8]" by (simp add: datas_def)
  note t = ring_invariant_maintained[OF ok r, where vs = "[7, 8]" and uninit = 0 and d = 9
      and forwarded = "\<lambda>d. (d, d)" and count = 2]
  note k0 = t[THEN conjunct1] and t1 = t[THEN conjunct2]
  note k1 = t1[THEN conjunct1] and t2 = t1[THEN conjunct2]
  note k2 = t2[THEN conjunct1] and t3 = t2[THEN conjunct2]
  note k3 = t3[THEN conjunct1] and t4 = t3[THEN conjunct2]
  note k4 = t4[THEN conjunct1] and t5 = t4[THEN conjunct2]
  note k5 = t5[THEN conjunct1] and t6 = t5[THEN conjunct2]
  note k6 = t6[THEN conjunct1] and t7 = t6[THEN conjunct2]
  note k7 = t7[THEN conjunct1] and t8 = t7[THEN conjunct2]
  note k8 = t8[THEN conjunct1] and t9 = t8[THEN conjunct2]
  note k9 = t9[THEN conjunct1] and t10 = t9[THEN conjunct2]
  note k10 = t10[THEN conjunct1] and t11 = t10[THEN conjunct2]
  note k11 = t11[THEN conjunct1] and t12 = t11[THEN conjunct2]
  note k12 = t12[THEN conjunct1] and t13 = t12[THEN conjunct2]
  note k13 = t13[THEN conjunct1] and t14 = t13[THEN conjunct2]
  note k14 = t14[THEN conjunct1] and t15 = t14[THEN conjunct2]
  note k15 = t15[THEN conjunct1] and t16 = t15[THEN conjunct2]
  note k16 = t16[THEN conjunct1] and k17 = t16[THEN conjunct2]
  note e3 = k3[THEN spec, THEN spec, THEN spec, THEN spec, THEN spec, THEN mp, OF src]
  note e7 = k7[THEN spec, THEN spec, THEN mp, OF other]
  note e14 = k14[THEN spec, THEN spec, THEN spec, THEN mp, OF mid]
  note at1 = k15[THEN bspec, OF in1]
  note at2 = k15[THEN bspec, OF in2]
  note a1 = at1[THEN conjunct1] and a2 = at2[THEN conjunct2, THEN conjunct1]
    and a3 = at2[THEN conjunct2, THEN conjunct2, THEN conjunct1]
    and a4 = at1[THEN conjunct2, THEN conjunct2, THEN conjunct2, THEN conjunct1]
  note g1 = at1[THEN conjunct2, THEN conjunct2, THEN conjunct2, THEN conjunct2,
      THEN spec, THEN spec, THEN spec, THEN spec, THEN spec, THEN mp, OF src', THEN conjunct1]
  note g2 = at2[THEN conjunct2, THEN conjunct2, THEN conjunct2, THEN conjunct2,
      THEN spec, THEN spec, THEN spec, THEN spec, THEN spec, THEN mp, OF src', THEN conjunct2]
  note e16 = k16[THEN spec, THEN spec, THEN spec, THEN mp, OF seg1]
  note e16' = k16[THEN spec, THEN spec, THEN spec, THEN mp, OF seg2]
  note e17 = k17[THEN mp, OF ne]
  have f0: "\<exists>b m' bs. list_ctor_values [7, 8] ?m = Inr (b, m') \<and> ring_kept b m' bs
           \<and> list_elements b m' = Some (Inr [7, 8])"
    using k2 by simp
  have f1: "\<exists>b m' bs. list_ctor_range 6 5 ?m = Some (Inr (b, m')) \<and> ring_kept b m' bs
           \<and> list_elements b m' = Some (Inr [7, 8])"
    using e3 by (simp add: datas_def)
  have f2: "\<exists>b m' bs. list_copy_ctor 0 ?l ?m = Some (Inr (b, m')) \<and> ring_kept b m' bs
           \<and> ring_kept ?l m' [4, 2, 3]"
    using k4 by simp
  have f3: "\<exists>b l' m'. list_move_ctor ?l ?m = (b, l', m') \<and> ring_kept b m' [4, 2, 3]
           \<and> ring_kept l' m' []"
    using k5 by simp
  have f4: "\<exists>l' r' m'. list_move_assign False ?l ?l2 ?m = Some (Inr (l', r', m'))
           \<and> ring_kept l' m' [6, 7] \<and> ring_kept r' m' []"
    using e7 by simp
  have f5: "\<exists>m'. list_push_back 9 ?l ?m = Inr m' \<and> ring_kept ?l m' [4, 2, 3, 8]"
    using k8 by simp
  have f6: "\<exists>m'. list_push_front 9 ?l ?m = Inr m' \<and> ring_kept ?l m' [8, 4, 2, 3]"
    using k9 by simp
  have f7: "\<exists>m'. list_emplace_back 9 ?l ?m = Inr m' \<and> ring_kept ?l m' [4, 2, 3, 8]"
    using k10 by simp
  have f8: "\<exists>m'. list_emplace_front 9 ?l ?m = Inr m' \<and> ring_kept ?l m' [8, 4, 2, 3]"
    using k11 by simp
  have f9: "\<exists>m'. list_insert_before ?l 1 9 ?m = Inr m' \<and> list_emplace_before ?l 1 9 ?m = Inr m'
           \<and> ring_kept ?l m' [4, 2, 3, 8]"
    using k12 by simp
  have f10: "\<exists>m'. list_insert_after ?l 1 9 ?m = Inr m' \<and> list_emplace_after ?l 1 9 ?m = Inr m'
           \<and> ring_kept ?l m' [8, 4, 2, 3]"
    using k13 by simp
  have f11: "\<exists>m'. list_insert_before ?l 2 9 ?m = Inr m' \<and> list_emplace_before ?l 2 9 ?m = Inr m'
           \<and> ring_kept ?l m' [4, 8, 2, 3]"
    using e14[THEN conjunct1] by simp
  have f12: "\<exists>m'. list_insert_after ?l 2 9 ?m = Inr m' \<and> list_emplace_after ?l 2 9 ?m = Inr m'
           \<and> ring_kept ?l m' [4, 2, 8, 3]"
    using e14[THEN conjunct2, THEN conjunct1] by simp
  have f13: "\<exists>m'. list_erase ?l 2 ?m = Inr (3, m') \<and> ring_kept ?l m' [4, 3]"
    using e14[THEN conjunct2, THEN conjunct2] by simp
  have f14: "\<exists>m' news. insert_before_count (\<lambda>d. (d, d)) ?l 1 2 9 ?m = Inr m' \<and> length news = 2
           \<and> ring_kept ?l m' (4 # 2 # 3 # news)"
    using a1 by simp
  have f15: "\<exists>m' news. insert_after_count (\<lambda>d. (d, d)) ?l 2 2 9 ?m = Inr m' \<and> length news = 2
           \<and> ring_kept ?l m' (4 # 2 # news @ [3])"
    using a2 by simp
  have f16: "\<exists>m' news. insert_before_values ?l 2 [7, 8] ?m = Inr m' \<and> length news = 2
           \<and> ring_kept ?l m' (4 # news @ [2, 3])"
    using a3 by (simp add: numeral_2_eq_2)
  have f17: "\<exists>m' news. insert_after_values ?l 1 [7, 8] ?m = Inr m' \<and> length news = 2
           \<and> ring_kept ?l m' (news @ [4, 2, 3])"
    using a4 by (simp add: numeral_2_eq_2)
  have f18: "\<exists>m' news. insert_before_range ?l 1 6 5 ?m = Some (Inr m') \<and> length news = 2
           \<and> ring_kept ?l m' (4 # 2 # 3 # news)"
    using g1 by (simp add: numeral_2_eq_2)
  have f19: "\<exists>m' news. insert_after_range ?l 2 6 5 ?m = Some (Inr m') \<and> length news = 2
           \<and> ring_kept ?l m' (4 # 2 # news @ [3])"
    using g2 by (simp add: numeral_2_eq_2)
  have f20: "\<exists>m'. erase_range ?l 4 3 ?m = Some (Inr (3, m')) \<and> ring_kept ?l m' [3]"
    using e16 by simp
  have f21: "\<exists>m'. erase_range ?l 2 1 ?m = Some (Inr (1, m')) \<and> ring_kept ?l m' [4]"
    using e16' by simp
  have f22: "\<exists>m'. list_pop_front ?l ?m = Inr m' \<and> ring_kept ?l m' [2, 3]"
    using e17[THEN conjunct1] by simp
  have f23: "\<exists>m'. list_pop_back ?l ?m = Inr m' \<and> ring_kept ?l m' [4, 2]"
    using e17[THEN conjunct2] by simp
  have h: "m_head ?l = 1" "m_head ?l2 = 5" "brk ?m = 8" by simp_all
  show ?thesis
    unfolding run sum.case prod.case
    by (intro conjI) (rule ok r r2 h k0 f0 f1 f2 f3 f4 f5 f6 f7 f8 f9 f10 f11 f12 f13 f14 f15 f16 f17 f18 f19 f20 f21 f22 f23)+
qed

text \<open>
  C8: for every list a whose nodes form a ring, the copy constructor returns a list b
  with a sentinel of its own (freshly allocated) and a ring of fresh nodes disjoint from
  a's, whose element sequence equals a's, in the same order; a's ring and sequence are
  untouched. Afterwards no sequence of \<^verbatim>\<open>push_back\<close>, \<^verbatim>\<open>push_front\<close>, \<^verbatim>\<open>pop_front\<close>,
  \<^verbatim>\<open>pop_back\<close> and \<^verbatim>\<open>erase\<close> calls on b changes the element sequence of a, and no such
  sequence on a changes that of b.
\<close>

theorem copy_ctor_independent:
  fixes m :: "('a::default) memory"
  assumes ok: "alloc_ok m" and r: "ring m (m_head a) as"
  shows "\<exists>b m' bs. list_copy_ctor uninit a m = Some (Inr (b, m'))
      \<and> alloc_ok m' \<and> ring m' (m_head a) as \<and> ring m' (m_head b) bs
      \<and> set (m_head b # bs) \<inter> set (m_head a # as) = {}
      \<and> cells m (m_head b) = None
      \<and> list_elements a m' = list_elements a m
      \<and> list_elements b m' = list_elements a m
      \<and> (\<forall>ops m''. mutate_all ops b m' = Inr m'' \<longrightarrow> list_elements a m'' = list_elements a m')
      \<and> (\<forall>ops m''. mutate_all ops a m' = Inr m'' \<longrightarrow> list_elements b m'' = list_elements b m')"
proof -
  let ?b = "\<lparr>m_head = brk m\<rparr>"
  from list_copy_ctor_ring[OF ok r, of uninit] obtain m' bs where
    c: "list_copy_ctor uninit a m = Some (Inr (?b, m'))" "ring m' (brk m) bs" "alloc_ok m'"
      "datas m' bs = datas m as" "\<forall>x\<in>set bs. brk m < x" "\<forall>x. x < brk m \<longrightarrow> cells m' x = cells m x"
    by blast
  have old: "\<forall>x\<in>set (m_head a # as). x < brk m"
    using alloc_ok_less[OF ok] ring_allocated[OF r] by blast
  have fr: "\<forall>x\<in>set (m_head a # as). cells m' x = cells m x" using old c(6) by blast
  have ra: "ring m' (m_head a) as" using r ring_frame[OF fr] by simp
  have rb: "ring m' (m_head ?b) bs" using c(2) by simp
  have dj: "set (m_head ?b # bs) \<inter> set (m_head a # as) = {}"
    using old c(5) by fastforce
  have ea: "list_elements a m' = list_elements a m" using r fr by (rule bystander_elements)
  have eb: "list_elements ?b m' = list_elements a m"
    using ring_elements[OF rb] ring_elements[OF r] c(4) by simp
  have fresh: "cells m (m_head ?b) = None" using alloc_ok_fresh[OF ok] by simp
  have i1: "\<forall>ops m''. mutate_all ops ?b m' = Inr m'' \<longrightarrow> list_elements a m'' = list_elements a m'"
    using mutate_all_bystander[OF c(3) rb ra dj] by blast
  have dj': "set (m_head a # as) \<inter> set (m_head ?b # bs) = {}" using dj by blast
  have i2: "\<forall>ops m''. mutate_all ops a m' = Inr m'' \<longrightarrow> list_elements ?b m'' = list_elements ?b m'"
    using mutate_all_bystander[OF c(3) ra rb dj'] by blast
  from c(1,3) ra rb dj fresh ea eb i1 i2 show ?thesis by blast
qed

theorem copy_ctor_independent_witness:
  "(case scenario_push of
      Inl e \<Rightarrow> False
    | Inr (a, m) \<Rightarrow>
        alloc_ok m \<and> ring m (m_head a) [4, 2, 3] \<and>
        (\<exists>b m'. list_copy_ctor 0 a m = Some (Inr (b, m')) \<and> m_head b = 5
           \<and> list_elements a m' = Some (Inr [0, 1, 2])
           \<and> list_elements b m' = Some (Inr [0, 1, 2])
           \<and> (\<exists>m''. mutate_all [Push_back 9, Pop_front, Erase_at 0] b m' = Inr m''
                  \<and> list_elements a m'' = Some (Inr [0, 1, 2])
                  \<and> list_elements b m'' = Some (Inr [2, 9]))
           \<and> (\<exists>m''. mutate_all [Pop_back, Push_front 5] a m' = Inr m''
                  \<and> list_elements b m'' = Some (Inr [0, 1, 2])
                  \<and> list_elements a m'' = Some (Inr [5, 0, 1]))))"
proof -
  let ?m = "\<lparr>cells = [1 \<mapsto> \<lparr>m_data = 0 :: int, m_prev = 3, m_next = 4\<rparr>,
                       2 \<mapsto> \<lparr>m_data = 1, m_prev = 4, m_next = 3\<rparr>,
                       3 \<mapsto> \<lparr>m_data = 2, m_prev = 2, m_next = 1\<rparr>,
                       4 \<mapsto> \<lparr>m_data = 0, m_prev = 1, m_next = 2\<rparr>], brk = 5\<rparr>"
  let ?a = "\<lparr>m_head = 1\<rparr>"
  have run: "scenario_push = Inr (?a, ?m)"
    by (auto simp: scenario_push_def run_defs fun_eq_iff)
  have ok: "alloc_ok ?m" by (simp add: alloc_ok_def)
  have r: "ring ?m (m_head ?a) [4, 2, 3]" by (simp add: ring_def cring_def)
  have ea: "list_elements ?a ?m = Some (Inr [0, 1, 2])"
    using ring_elements[OF r] by (simp add: datas_def)
  from copy_ctor_independent[OF ok r, of 0] obtain b m' where
    c: "list_copy_ctor 0 ?a ?m = Some (Inr (b, m'))"
      "list_elements ?a m' = list_elements ?a ?m" "list_elements b m' = list_elements ?a ?m"
      "\<forall>ops m''. mutate_all ops b m' = Inr m'' \<longrightarrow> list_elements ?a m'' = list_elements ?a m'"
      "\<forall>ops m''. mutate_all ops ?a m' = Inr m'' \<longrightarrow> list_elements b m'' = list_elements b m'"
    by blast
  let ?m' = "\<lparr>cells = [1 \<mapsto> \<lparr>m_data = 0 :: int, m_prev = 3, m_next = 4\<rparr>,
                       2 \<mapsto> \<lparr>m_data = 1, m_prev = 4, m_next = 3\<rparr>,
                       3 \<mapsto> \<lparr>m_data = 2, m_prev = 2, m_next = 1\<rparr>,
                       4 \<mapsto> \<lparr>m_data = 0, m_prev = 1, m_next = 2\<rparr>,
                       5 \<mapsto> \<lparr>m_data = 0, m_prev = 8, m_next = 6\<rparr>,
                       6 \<mapsto> \<lparr>m_data = 0, m_prev = 5, m_next = 7\<rparr>,
                       7 \<mapsto> \<lparr>m_data = 1, m_prev = 6, m_next = 8\<rparr>,
                       8 \<mapsto> \<lparr>m_data = 2, m_prev = 7, m_next = 5\<rparr>], brk = 9\<rparr>"
  have "list_copy_ctor 0 ?a ?m = Some (Inr (\<lparr>m_head = 5\<rparr>, ?m'))"
    by (auto simp: mutate_defs run_defs fun_eq_iff)
  with c(1) have b: "b = \<lparr>m_head = 5\<rparr>" "m' = ?m'" by simp_all
  obtain m2 where m2: "mutate_all [Push_back 9, Pop_front, Erase_at 0] b m' = Inr m2"
      "list_elements b m2 = Some (Inr [2, 9])"
    unfolding b by (simp add: mutate_defs run_defs collect.simps)
  obtain m3 where m3: "mutate_all [Pop_back, Push_front 5] ?a m' = Inr m3"
      "list_elements ?a m3 = Some (Inr [5, 0, 1])"
    unfolding b by (simp add: mutate_defs run_defs collect.simps)
  from c(4) m2(1) have i1: "list_elements ?a m2 = list_elements ?a m'" by blast
  from c(5) m3(1) have i2: "list_elements b m3 = list_elements b m'" by blast
  show ?thesis
    unfolding run using ok r c(1,2,3) ea b(1) m2 m3 i1 i2 by auto
qed

text \<open>
  C10: on every empty list (the sentinel self-linked), \<^verbatim>\<open>begin()\<close> is the sentinel, so
  \<^verbatim>\<open>pop_front()\<close> and \<^verbatim>\<open>pop_back()\<close> pass the sentinel itself to \<^verbatim>\<open>erase\<close>, which
  destroys and deallocates it: the calls return, the sentinel is gone from the store,
  and \<^verbatim>\<open>m_head\<close>, which neither call writes, is left dangling.
\<close>

theorem pop_on_empty_list_frees_sentinel:
  assumes "alloc_ok m" and "ring m (m_head this) []"
  shows "list_begin this m = Inr (m_head this)
       \<and> list_erase this (m_head this) m
           = Inr (m_head this, m\<lparr>cells := (cells m)(m_head this := None)\<rparr>)
       \<and> list_pop_front this m = Inr (m\<lparr>cells := (cells m)(m_head this := None)\<rparr>)
       \<and> list_pop_back this m = Inr (m\<lparr>cells := (cells m)(m_head this := None)\<rparr>)
       \<and> deref (m\<lparr>cells := (cells m)(m_head this := None)\<rparr>) (m_head this) = Inl Dangling_deref"
proof -
  from assms have nn: "m_head this \<noteq> nullptr" by (rule ring_nonnull)
  from assms(2) obtain hn where hn: "cells m (m_head this) = Some hn" "m_next hn = m_head this"
      "m_prev hn = m_head this"
    by (auto simp: ring_unfold)
  have "hn\<lparr>m_next := m_head this\<rparr> = hn" "hn\<lparr>m_prev := m_head this\<rparr> = hn" using hn by auto
  then have e: "list_erase this (m_head this) m
      = Inr (m_head this, m\<lparr>cells := (cells m)(m_head this := None)\<rparr>)"
    using hn by (simp add: list_erase_def store_def destroy_deallocate_def)
  show ?thesis using hn e nn
    by (simp add: list_begin_def list_pop_front_def list_pop_back_def deref_def)
qed

theorem pop_on_empty_list_frees_sentinel_witness:
  "(case list_ctor (empty_memory :: int memory) of
      (l, m) \<Rightarrow>
        alloc_ok m \<and> ring m (m_head l) [] \<and> list_elements l m = Some (Inr []) \<and>
        list_begin l m = Inr (m_head l) \<and>
        list_pop_front l m = Inr (m\<lparr>cells := (cells m)(m_head l := None)\<rparr>) \<and>
        list_pop_back l m = Inr (m\<lparr>cells := (cells m)(m_head l := None)\<rparr>) \<and>
        deref (m\<lparr>cells := (cells m)(m_head l := None)\<rparr>) (m_head l) = Inl Dangling_deref)"
proof -
  let ?m = "\<lparr>cells = [1 \<mapsto> \<lparr>m_data = 0 :: int, m_prev = 1, m_next = 1\<rparr>], brk = 2\<rparr>"
  have run: "list_ctor (empty_memory :: int memory) = (\<lparr>m_head = 1\<rparr>, ?m)"
    by (auto simp: run_defs fun_eq_iff)
  have ok: "alloc_ok ?m" by (simp add: alloc_ok_def)
  have r: "ring ?m (m_head \<lparr>m_head = 1\<rparr>) []" by (simp add: ring_def cring_def)
  show ?thesis
    using pop_on_empty_list_frees_sentinel[OF ok r] ok r ring_elements[OF r]
    by (simp add: run datas_def)
qed

end
